theory Spec2Isabelle
  imports Main "HOL-Library.Multiset"
begin

section \<open>Grid cells and search nodes (astar_pathfinding.py)\<close>

text \<open>
  Python integers are unbounded, so coordinates and costs are \<open>int\<close>. A position is the
  pair of its two coordinates, in pixels or in grid cells.
\<close>

type_synonym cell = "int \<times> int"
type_synonym pixel = "int \<times> int"

text \<open>
  class Node: the two coordinates, the three costs and the parent reference. A node is
  never mutated after it has been pushed on the open set, so the parent reference is
  modelled by the parent's value; \<open>None\<close> is Python's None.
\<close>

datatype node = Node (node_x: int) (node_y: int) (g_cost: int) (h_cost: int) (f_cost: int)
  (parent: "node option")

definition Node_init :: "int \<Rightarrow> int \<Rightarrow> node" where
  "Node_init x y = Node x y 0 0 0 None"

text \<open>Node.__lt__: heapq compares nodes by f_cost only.\<close>

definition node_lt :: "node \<Rightarrow> node \<Rightarrow> bool" where
  "node_lt a b \<longleftrightarrow> f_cost a < f_cost b"

text \<open>Node.__eq__ and Node.__hash__: identity is the coordinate pair.\<close>

definition node_cell :: "node \<Rightarrow> cell" where
  "node_cell n = (node_x n, node_y n)"

definition node_eq :: "node \<Rightarrow> node \<Rightarrow> bool" where
  "node_eq a b \<longleftrightarrow> node_x a = node_x b \<and> node_y a = node_y b"

section \<open>heapq on a Python list\<close>

text \<open>
  The open set is a Python list used through heapq.heappush and heapq.heappop. The two
  functions are modelled after CPython's heapq: \<open>siftdown\<close> is heapq._siftdown (the new
  item moves towards the root while it is smaller than its parent), \<open>siftup\<close> is
  heapq._siftup (the smaller child is moved up until a leaf is reached, the item is put
  there and then sifted down).
\<close>

function siftdown_loop :: "node list \<Rightarrow> nat \<Rightarrow> node \<Rightarrow> nat \<Rightarrow> node list" where
  "siftdown_loop heap startpos newitem pos =
     (if pos > startpos then
        (let parentpos = (pos - 1) div 2;
             par = heap ! parentpos
         in if node_lt newitem par
            then siftdown_loop (heap[pos := par]) startpos newitem parentpos
            else heap[pos := newitem])
      else heap[pos := newitem])"
  by pat_completeness auto
termination
  by (relation "measure (\<lambda>(heap, startpos, newitem, pos). pos)") auto

declare siftdown_loop.simps [simp del]

definition siftdown :: "node list \<Rightarrow> nat \<Rightarrow> nat \<Rightarrow> node list" where
  "siftdown heap startpos pos = siftdown_loop heap startpos (heap ! pos) pos"

text \<open>
  The loop of heapq._siftup: returns the list and the leaf position where the hole
  ends up.
\<close>

function siftup_loop :: "node list \<Rightarrow> nat \<Rightarrow> node list \<times> nat" where
  "siftup_loop heap pos =
     (let endpos = length heap;
          childpos = 2 * pos + 1
      in if childpos < endpos then
           (let rightpos = childpos + 1;
                childpos' = (if rightpos < endpos \<and> \<not> node_lt (heap ! childpos) (heap ! rightpos)
                             then rightpos else childpos)
            in siftup_loop (heap[pos := heap ! childpos']) childpos')
         else (heap, pos))"
  by pat_completeness auto
termination
  by (relation "measure (\<lambda>(heap, pos). length heap - pos)") (auto simp: Let_def)

declare siftup_loop.simps [simp del]

definition siftup :: "node list \<Rightarrow> nat \<Rightarrow> node list" where
  "siftup heap pos =
     (let newitem = heap ! pos;
          (heap', pos') = siftup_loop heap pos
      in siftdown (heap'[pos' := newitem]) pos pos')"

definition heappush :: "node list \<Rightarrow> node \<Rightarrow> node list" where
  "heappush heap item = siftdown (heap @ [item]) 0 (length heap)"

text \<open>
  heappop raises IndexError on an empty list: \<open>None\<close>. Otherwise it returns the popped
  item and the list that is left.
\<close>

definition heappop :: "node list \<Rightarrow> (node \<times> node list) option" where
  "heappop heap =
     (if heap = [] then None
      else (let lastelt = last heap;
                heap1 = butlast heap
            in if heap1 \<noteq> [] then Some (heap1 ! 0, siftup (heap1[0 := lastelt]) 0)
               else Some (lastelt, heap1)))"

subsection \<open>heapq keeps the elements\<close>

lemma length_siftdown_loop [simp]:
  "length (siftdown_loop heap startpos newitem pos) = length heap"
  by (induction heap startpos newitem pos rule: siftdown_loop.induct)
     (subst siftdown_loop.simps, simp add: Let_def)

lemma mset_siftdown_loop:
  "pos < length heap \<Longrightarrow>
   mset (siftdown_loop heap startpos newitem pos) = mset (heap[pos := newitem])"
proof (induction heap startpos newitem pos rule: siftdown_loop.induct)
  case (1 heap startpos newitem pos)
  show ?case
  proof (cases "pos > startpos \<and> node_lt newitem (heap ! ((pos - 1) div 2))")
    case True
    let ?pp = "(pos - 1) div 2"
    from True 1(2) have pp: "?pp < pos" "?pp < length heap" by auto
    have "siftdown_loop heap startpos newitem pos =
          siftdown_loop (heap[pos := heap ! ?pp]) startpos newitem ?pp"
      using True by (subst siftdown_loop.simps) (simp add: Let_def)
    also have "mset \<dots> = mset ((heap[pos := heap ! ?pp])[?pp := newitem])"
      using 1(1)[OF _ refl refl] True pp by simp
    also have "\<dots> = mset (heap[pos := newitem])"
      using pp 1(2) by (simp add: mset_update) 
    finally show ?thesis .
  next
    case False
    then show ?thesis by (subst siftdown_loop.simps) (auto simp: Let_def)
  qed
qed

lemma length_siftdown [simp]: "length (siftdown heap startpos pos) = length heap"
  by (simp add: siftdown_def)

lemma mset_siftdown: "pos < length heap \<Longrightarrow> mset (siftdown heap startpos pos) = mset heap"
  by (simp add: siftdown_def mset_siftdown_loop)

lemma mset_heappush [simp]: "mset (heappush heap item) = add_mset item (mset heap)"
  by (simp add: heappush_def mset_siftdown)

lemma length_heappush [simp]: "length (heappush heap item) = Suc (length heap)"
  by (simp add: heappush_def)

lemma siftup_loop_props:
  "siftup_loop heap pos = (heap', pos') \<Longrightarrow> pos < length heap \<Longrightarrow>
   length heap' = length heap \<and> pos' < length heap \<and> pos \<le> pos' \<and>
   mset (heap'[pos' := v]) = mset (heap[pos := v])"
proof (induction heap pos arbitrary: heap' pos' rule: siftup_loop.induct)
  case (1 heap pos)
  show ?case
  proof (cases "2 * pos + 1 < length heap")
    case True
    define c where "c = (if 2 * pos + 1 + 1 < length heap \<and> \<not> node_lt (heap ! (2 * pos + 1)) (heap ! (2 * pos + 1 + 1))
                             then 2 * pos + 1 + 1 else 2 * pos + 1)"
    have c: "c < length heap" "pos < c" using True by (auto simp: c_def)
    have eq: "siftup_loop heap pos = siftup_loop (heap[pos := heap ! c]) c"
      using True by (subst siftup_loop.simps) (simp add: Let_def c_def)
    have IH: "length heap' = length (heap[pos := heap ! c]) \<and> pos' < length (heap[pos := heap ! c]) \<and> c \<le> pos' \<and>
      mset (heap'[pos' := v]) = mset ((heap[pos := heap ! c])[c := v])"
      using 1(1)[OF refl refl True refl refl, folded c_def, of heap' pos'] eq 1(2) c by simp
    have "mset ((heap[pos := heap ! c])[c := v]) = mset (heap[pos := v])"
      using c 1(3) by (simp add: mset_update)
    with IH c show ?thesis by simp
  next
    case False
    with 1(2,3) show ?thesis by (subst (asm) siftup_loop.simps) (simp add: Let_def)
  qed
qed

lemma length_siftup [simp]: "pos < length heap \<Longrightarrow> length (siftup heap pos) = length heap"
  using siftup_loop_props[of heap pos]
  by (auto simp: siftup_def Let_def split: prod.splits)

lemma mset_siftup: "pos < length heap \<Longrightarrow> mset (siftup heap pos) = mset heap"
  using siftup_loop_props[of heap pos _ _ "heap ! pos"]
  by (auto simp: siftup_def Let_def mset_siftdown split: prod.splits)

lemma heappop_None [simp]: "heappop heap = None \<longleftrightarrow> heap = []"
  by (simp add: heappop_def Let_def)

lemma heappop_Some:
  assumes "heappop heap = Some (item, heap')"
  shows "mset heap = add_mset item (mset heap')"
proof -
  from assms have ne: "heap \<noteq> []" by (auto simp: heappop_def)
  then obtain xs l where h: "heap = xs @ [l]" by (metis rev_exhaust)
  show ?thesis
  proof (cases xs)
    case Nil
    with assms h show ?thesis by (simp add: heappop_def)
  next
    case (Cons a as)
    with assms h have "item = a" "heap' = siftup (l # as) 0"
      by (auto simp: heappop_def Let_def)
    then show ?thesis using h Cons by (simp add: mset_siftup)
  qed
qed

section \<open>class AStarPathfinder\<close>

record AStarPathfinder =
  cell_size :: int
  grid_cols :: int
  grid_rows :: int

text \<open>
  AStarPathfinder.__init__: the two floor divisions raise ZeroDivisionError when
  cell_size is 0, and no pathfinder is constructed (\<open>None\<close>). Python's \<open>//\<close> on
  integers rounds towards minus infinity, as \<open>div\<close> on \<open>int\<close> does.
\<close>

definition AStarPathfinder_init :: "int \<Rightarrow> int \<Rightarrow> int \<Rightarrow> AStarPathfinder option" where
  "AStarPathfinder_init grid_width grid_height csize =
     (if csize = 0 then None
      else Some \<lparr>cell_size = csize,
                 grid_cols = grid_width div csize,
                 grid_rows = grid_height div csize\<rparr>)"

definition pixel_to_grid :: "AStarPathfinder \<Rightarrow> int \<Rightarrow> int \<Rightarrow> cell" where
  "pixel_to_grid pf x y = (x div cell_size pf, y div cell_size pf)"

definition grid_to_pixel :: "AStarPathfinder \<Rightarrow> int \<Rightarrow> int \<Rightarrow> pixel" where
  "grid_to_pixel pf grid_x grid_y = (grid_x * cell_size pf, grid_y * cell_size pf)"

definition manhattan_distance :: "node \<Rightarrow> node \<Rightarrow> int" where
  "manhattan_distance node1 node2 =
     \<bar>node_x node1 - node_x node2\<bar> + \<bar>node_y node1 - node_y node2\<bar>"

definition in_grid :: "AStarPathfinder \<Rightarrow> cell \<Rightarrow> bool" where
  "in_grid pf c \<longleftrightarrow> 0 \<le> fst c \<and> fst c < grid_cols pf \<and> 0 \<le> snd c \<and> snd c < grid_rows pf"

definition directions :: "(int \<times> int) list" where
  "directions = [(-1, 0), (1, 0), (0, -1), (0, 1)]"

definition get_neighbors :: "AStarPathfinder \<Rightarrow> node \<Rightarrow> node list" where
  "get_neighbors pf n =
     map (\<lambda>(dx, dy). Node_init (node_x n + dx) (node_y n + dy))
       (filter (\<lambda>(dx, dy). in_grid pf (node_x n + dx, node_y n + dy)) directions)"

text \<open>
  is_safe_position: the body is converted to grid cells; with ignore_tail and more than
  one segment the last one is dropped; the position is safe when it is not in the list.
\<close>

definition snake_grid_positions :: "AStarPathfinder \<Rightarrow> pixel list \<Rightarrow> bool \<Rightarrow> cell list" where
  "snake_grid_positions pf snake_body ignore_tail =
     (let ps = map (\<lambda>(sx, sy). pixel_to_grid pf sx sy) snake_body
      in if ignore_tail \<and> length ps > 1 then butlast ps else ps)"

definition is_safe_position :: "AStarPathfinder \<Rightarrow> int \<Rightarrow> int \<Rightarrow> pixel list \<Rightarrow> bool \<Rightarrow> bool" where
  "is_safe_position pf x y snake_body ignore_tail \<longleftrightarrow>
     (x, y) \<notin> set (snake_grid_positions pf snake_body ignore_tail)"

text \<open>
  _reconstruct_path: follows the parent references from the goal node, collecting the
  pixel coordinates, and reverses.
\<close>

fun parent_chain :: "node \<Rightarrow> node list" where
  "parent_chain (Node x y g h f p) =
     Node x y g h f p # (case p of None \<Rightarrow> [] | Some q \<Rightarrow> parent_chain q)"

definition reconstruct_path :: "AStarPathfinder \<Rightarrow> node \<Rightarrow> pixel list" where
  "reconstruct_path pf goal_node =
     rev (map (\<lambda>n. grid_to_pixel pf (node_x n) (node_y n)) (parent_chain goal_node))"

text \<open>
  The body of the \<open>for neighbor in get_neighbors(current_node)\<close> loop of find_path, for
  one neighbor. The closed set is a Python set of nodes, which hash and compare by their
  coordinates: it is the set of their cells. When the neighbor is already in the open
  set with a larger g_cost, the source writes the new costs to the fresh neighbor object
  and does not push it, so the open set is left as it is.
\<close>

definition visit_neighbor ::
  "AStarPathfinder \<Rightarrow> node \<Rightarrow> pixel list \<Rightarrow> node \<Rightarrow> cell set \<Rightarrow> node list \<Rightarrow> node \<Rightarrow> node list" where
  "visit_neighbor pf goal_node snake_body current_node closed_set open_set neighbor =
     (if node_cell neighbor \<in> closed_set then open_set
      else if \<not> is_safe_position pf (node_x neighbor) (node_y neighbor) snake_body True
      then open_set
      else (let tentative_g_cost = g_cost current_node + 1;
                existing_neighbor = find (\<lambda>n. node_eq n neighbor) open_set
            in if (case existing_neighbor of None \<Rightarrow> True
                   | Some e \<Rightarrow> tentative_g_cost < g_cost e)
               then (let h = manhattan_distance neighbor goal_node;
                         neighbor' = Node (node_x neighbor) (node_y neighbor)
                                       tentative_g_cost h (tentative_g_cost + h)
                                       (Some current_node)
                     in if existing_neighbor = None then heappush open_set neighbor'
                        else open_set)
               else open_set))"

definition explore_neighbors ::
  "AStarPathfinder \<Rightarrow> node \<Rightarrow> pixel list \<Rightarrow> node \<Rightarrow> cell set \<Rightarrow> node list \<Rightarrow> node list" where
  "explore_neighbors pf goal_node snake_body current_node closed_set open_set =
     foldl (visit_neighbor pf goal_node snake_body current_node closed_set) open_set
       (get_neighbors pf current_node)"

subsection \<open>Termination of the search loop\<close>

text \<open>
  The cells of the grid that are neither closed nor in the open set. Every push takes
  one of them, every pop shortens the open set: twice their number plus the length of
  the open set decreases in every iteration.
\<close>

definition unseen :: "AStarPathfinder \<Rightarrow> cell set \<Rightarrow> node list \<Rightarrow> cell set" where
  "unseen pf closed_set open_set =
     {c. in_grid pf c \<and> c \<notin> closed_set \<and> c \<notin> node_cell ` set open_set}"

definition search_measure :: "AStarPathfinder \<Rightarrow> cell set \<Rightarrow> node list \<Rightarrow> nat" where
  "search_measure pf closed_set open_set =
     2 * card (unseen pf closed_set open_set) + length open_set"

lemma finite_in_grid: "finite {c. in_grid pf c}"
proof -
  have "{c. in_grid pf c} \<subseteq> {0..<grid_cols pf} \<times> {0..<grid_rows pf}"
    by (auto simp: in_grid_def)
  then show ?thesis by (rule finite_subset) simp
qed

lemma finite_unseen [simp]: "finite (unseen pf closed_set open_set)"
  by (rule finite_subset[OF _ finite_in_grid[of pf]]) (auto simp: unseen_def)

lemma set_heappush [simp]: "set (heappush heap item) = insert item (set heap)"
  using mset_heappush[of heap item] by (metis set_mset_add_mset_insert set_mset_mset)

lemma set_heappop: "heappop heap = Some (item, heap') \<Longrightarrow> set heap = insert item (set heap')"
  by (metis heappop_Some set_mset_add_mset_insert set_mset_mset)

lemma length_heappop: "heappop heap = Some (item, heap') \<Longrightarrow> length heap = Suc (length heap')"
  by (metis heappop_Some size_add_mset size_mset)

lemma find_node_eq_None:
  "find (\<lambda>n. node_eq n nb) open_set = None \<longleftrightarrow> node_cell nb \<notin> node_cell ` set open_set"
  by (induction open_set) (auto simp: node_eq_def node_cell_def)

lemma get_neighbors_in_grid: "nb \<in> set (get_neighbors pf n) \<Longrightarrow> in_grid pf (node_cell nb)"
  by (auto simp: get_neighbors_def node_cell_def Node_init_def)

text \<open>One neighbor either leaves the open set alone or pushes one node for a fresh cell.\<close>

lemma visit_neighbor_cases:
  "visit_neighbor pf goal_node snake_body cur closed_set open_set nb = open_set \<or>
   (node_cell nb \<notin> closed_set \<and> node_cell nb \<notin> node_cell ` set open_set \<and>
    is_safe_position pf (node_x nb) (node_y nb) snake_body True \<and>
    visit_neighbor pf goal_node snake_body cur closed_set open_set nb =
      heappush open_set (Node (node_x nb) (node_y nb) (g_cost cur + 1)
        (manhattan_distance nb goal_node) (g_cost cur + 1 + manhattan_distance nb goal_node)
        (Some cur)))"
  by (auto simp: visit_neighbor_def Let_def find_node_eq_None[symmetric] split: option.splits)

lemma search_measure_push:
  assumes "in_grid pf (node_cell n)" "node_cell n \<notin> closed_set"
    "node_cell n \<notin> node_cell ` set open_set"
  shows "search_measure pf closed_set (heappush open_set n) < search_measure pf closed_set open_set"
proof -
  have "unseen pf closed_set (heappush open_set n) = unseen pf closed_set open_set - {node_cell n}"
    by (auto simp: unseen_def)
  moreover have "node_cell n \<in> unseen pf closed_set open_set"
    using assms by (simp add: unseen_def)
  ultimately have "card (unseen pf closed_set (heappush open_set n)) <
      card (unseen pf closed_set open_set)"
    using card_Diff1_less[of "unseen pf closed_set open_set" "node_cell n"] by simp
  then show ?thesis by (simp add: search_measure_def)
qed

lemma search_measure_visit:
  assumes "in_grid pf (node_cell nb)"
  shows "search_measure pf closed_set
           (visit_neighbor pf goal_node snake_body cur closed_set open_set nb)
         \<le> search_measure pf closed_set open_set"
proof -
  from visit_neighbor_cases[of pf goal_node snake_body cur closed_set open_set nb]
  show ?thesis
  proof
    assume "visit_neighbor pf goal_node snake_body cur closed_set open_set nb = open_set"
    then show ?thesis by simp
  next
    assume a: "node_cell nb \<notin> closed_set \<and> node_cell nb \<notin> node_cell ` set open_set \<and>
      is_safe_position pf (node_x nb) (node_y nb) snake_body True \<and>
      visit_neighbor pf goal_node snake_body cur closed_set open_set nb =
        heappush open_set (Node (node_x nb) (node_y nb) (g_cost cur + 1)
          (manhattan_distance nb goal_node) (g_cost cur + 1 + manhattan_distance nb goal_node)
          (Some cur))"
    let ?n = "Node (node_x nb) (node_y nb) (g_cost cur + 1)
          (manhattan_distance nb goal_node) (g_cost cur + 1 + manhattan_distance nb goal_node)
          (Some cur)"
    have c: "node_cell ?n = node_cell nb" by (simp add: node_cell_def)
    from a assms show ?thesis
      using search_measure_push[of pf ?n closed_set open_set] unfolding c by simp
  qed
qed

lemma search_measure_foldl:
  "\<forall>nb \<in> set nbs. in_grid pf (node_cell nb) \<Longrightarrow>
   search_measure pf closed_set
     (foldl (visit_neighbor pf goal_node snake_body cur closed_set) open_set nbs)
   \<le> search_measure pf closed_set open_set"
proof (induction nbs arbitrary: open_set)
  case Nil
  then show ?case by simp
next
  case (Cons nb nbs)
  have "search_measure pf closed_set
     (foldl (visit_neighbor pf goal_node snake_body cur closed_set) open_set (nb # nbs))
     \<le> search_measure pf closed_set
          (visit_neighbor pf goal_node snake_body cur closed_set open_set nb)"
    using Cons by simp
  also have "\<dots> \<le> search_measure pf closed_set open_set"
    using Cons.prems by (simp add: search_measure_visit)
  finally show ?case .
qed

lemma search_measure_explore:
  "search_measure pf closed_set (explore_neighbors pf goal_node snake_body cur closed_set open_set)
   \<le> search_measure pf closed_set open_set"
  unfolding explore_neighbors_def
  by (rule search_measure_foldl) (simp add: get_neighbors_in_grid)

lemma search_measure_pop:
  assumes "heappop open_set = Some (cur, open1)"
  shows "search_measure pf (insert (node_cell cur) closed_set) open1
         < search_measure pf closed_set open_set"
proof -
  have s: "set open_set = insert cur (set open1)" using assms by (rule set_heappop)
  have "unseen pf (insert (node_cell cur) closed_set) open1 \<subseteq> unseen pf closed_set open_set"
    by (auto simp: unseen_def s)
  then have "card (unseen pf (insert (node_cell cur) closed_set) open1)
      \<le> card (unseen pf closed_set open_set)"
    by (simp add: card_mono)
  then show ?thesis using length_heappop[OF assms] by (simp add: search_measure_def)
qed

text \<open>
  The \<open>while open_set\<close> loop of find_path. The loop ends with \<open>None\<close> when the open set
  is empty, which is when heappop has nothing to return.
\<close>

function find_loop ::
  "AStarPathfinder \<Rightarrow> node \<Rightarrow> pixel list \<Rightarrow> node list \<Rightarrow> cell set \<Rightarrow> pixel list option" where
  "find_loop pf goal_node snake_body open_set closed_set =
     (case heappop open_set of
        None \<Rightarrow> None
      | Some (current_node, open1) \<Rightarrow>
          (let closed1 = insert (node_cell current_node) closed_set
           in if node_eq current_node goal_node
              then Some (reconstruct_path pf current_node)
              else find_loop pf goal_node snake_body
                     (explore_neighbors pf goal_node snake_body current_node closed1 open1)
                     closed1))"
  by pat_completeness auto
termination
proof (relation "measure (\<lambda>(pf, goal_node, snake_body, open_set, closed_set).
                    search_measure pf closed_set open_set)", goal_cases)
  case 1
  then show ?case by simp
next
  case (2 pf goal_node snake_body open_set closed_set x2 current_node open1 closed1)
  then have pop: "heappop open_set = Some (current_node, open1)" by simp
  have "search_measure pf closed1
          (explore_neighbors pf goal_node snake_body current_node closed1 open1)
        \<le> search_measure pf closed1 open1"
    by (rule search_measure_explore)
  also have "\<dots> < search_measure pf closed_set open_set"
    unfolding 2 by (rule search_measure_pop[OF pop])
  finally show ?case by simp
qed

declare find_loop.simps [simp del]

definition find_path :: "AStarPathfinder \<Rightarrow> pixel \<Rightarrow> pixel \<Rightarrow> pixel list \<Rightarrow> pixel list option" where
  "find_path pf start_pos goal_pos snake_body =
     (let start_grid = pixel_to_grid pf (fst start_pos) (snd start_pos);
          goal_grid = pixel_to_grid pf (fst goal_pos) (snd goal_pos);
          start_node = Node_init (fst start_grid) (snd start_grid);
          goal_node = Node_init (fst goal_grid) (snd goal_grid)
      in find_loop pf goal_node snake_body (heappush [] start_node) {})"

text \<open>
  The cells in the order in which the loop of find_path pops them: the same loop as
  \<open>find_loop\<close>, recording the popped node's cell in each iteration instead of
  computing the result.
\<close>

function popped_cells ::
  "AStarPathfinder \<Rightarrow> node \<Rightarrow> pixel list \<Rightarrow> node list \<Rightarrow> cell set \<Rightarrow> cell list" where
  "popped_cells pf goal_node body open_set closed_set =
     (case heappop open_set of
        None \<Rightarrow> []
      | Some (current_node, open1) \<Rightarrow>
          (let closed1 = insert (node_cell current_node) closed_set
           in node_cell current_node #
              (if node_eq current_node goal_node then []
               else popped_cells pf goal_node body
                      (explore_neighbors pf goal_node body current_node closed1 open1)
                      closed1)))"
  by pat_completeness auto
termination
proof (relation "measure (\<lambda>(pf, goal_node, body, open_set, closed_set).
                    search_measure pf closed_set open_set)", goal_cases)
  case 1
  then show ?case by simp
next
  case (2 pf goal_node body open_set closed_set x2 current_node open1 closed1)
  then have pop: "heappop open_set = Some (current_node, open1)" by simp
  have "search_measure pf closed1
          (explore_neighbors pf goal_node body current_node closed1 open1)
        \<le> search_measure pf closed1 open1"
    by (rule search_measure_explore)
  also have "\<dots> < search_measure pf closed_set open_set"
    unfolding 2 by (rule search_measure_pop[OF pop])
  finally show ?case by simp
qed

declare popped_cells.simps [simp del]

definition expansion_order :: "AStarPathfinder \<Rightarrow> pixel \<Rightarrow> pixel \<Rightarrow> pixel list \<Rightarrow> cell list" where
  "expansion_order pf start_pos goal_pos body =
     (let start_grid = pixel_to_grid pf (fst start_pos) (snd start_pos);
          goal_grid = pixel_to_grid pf (fst goal_pos) (snd goal_pos);
          start_node = Node_init (fst start_grid) (snd start_grid);
          goal_node = Node_init (fst goal_grid) (snd goal_grid)
      in popped_cells pf goal_node body (heappush [] start_node) {})"

text \<open>get_next_direction: the horizontal difference is looked at first.\<close>

datatype direction = UP | DOWN | LEFT | RIGHT

definition get_next_direction :: "pixel \<Rightarrow> pixel \<Rightarrow> direction" where
  "get_next_direction current_pos target_pos =
     (let dx = fst target_pos - fst current_pos;
          dy = snd target_pos - snd current_pos
      in if dx > 0 then RIGHT
         else if dx < 0 then LEFT
         else if dy > 0 then DOWN
         else if dy < 0 then UP
         else RIGHT)"

text \<open>
  find_safe_path_to_tail: the goal is the last segment, and the body handed to find_path
  is \<open>snake_body[:-1]\<close>.
\<close>

definition find_safe_path_to_tail :: "AStarPathfinder \<Rightarrow> pixel \<Rightarrow> pixel list \<Rightarrow> pixel list option" where
  "find_safe_path_to_tail pf snake_head snake_body =
     (if length snake_body < 2 then None
      else (let tail_pos = last snake_body
            in find_path pf snake_head tail_pos (butlast snake_body)))"

section \<open>class SnakeAI\<close>

text \<open>
  SnakeAI.__init__ builds its pathfinder with the default cell size 10, which is never
  0: the construction cannot fail. The fields current_path and path_index are written
  once and never read.
\<close>

record SnakeAI =
  pathfinder :: AStarPathfinder

definition SnakeAI_init :: "int \<Rightarrow> int \<Rightarrow> SnakeAI" where
  "SnakeAI_init grid_width grid_height =
     \<lparr>pathfinder = \<lparr>cell_size = 10,
                           grid_cols = grid_width div 10,
                           grid_rows = grid_height div 10\<rparr>\<rparr>"

text \<open>One direction of _make_safe_move: the head moved by 10 pixels.\<close>

definition step_pos :: "pixel \<Rightarrow> direction \<Rightarrow> pixel" where
  "step_pos p d =
     (case d of
        UP \<Rightarrow> (fst p, snd p - 10)
      | DOWN \<Rightarrow> (fst p, snd p + 10)
      | LEFT \<Rightarrow> (fst p - 10, snd p)
      | RIGHT \<Rightarrow> (fst p + 10, snd p))"

definition move_is_safe :: "SnakeAI \<Rightarrow> pixel \<Rightarrow> pixel list \<Rightarrow> direction \<Rightarrow> bool" where
  "move_is_safe ai snake_head snake_body d \<longleftrightarrow>
     (let next_pos = step_pos snake_head d;
          grid_pos = pixel_to_grid (pathfinder ai) (fst next_pos) (snd next_pos)
      in (0 \<le> fst grid_pos \<and> fst grid_pos < grid_cols (pathfinder ai) \<and>
          0 \<le> snd grid_pos \<and> snd grid_pos < grid_rows (pathfinder ai)) \<and>
         is_safe_position (pathfinder ai) (fst grid_pos) (snd grid_pos) snake_body True)"

text \<open>The \<open>for direction in directions\<close> loop of _make_safe_move, with its early return.\<close>

fun safe_move_loop :: "SnakeAI \<Rightarrow> pixel \<Rightarrow> pixel list \<Rightarrow> direction list \<Rightarrow> direction" where
  "safe_move_loop ai snake_head snake_body [] = RIGHT"
| "safe_move_loop ai snake_head snake_body (d # ds) =
     (if move_is_safe ai snake_head snake_body d then d
      else safe_move_loop ai snake_head snake_body ds)"

definition make_safe_move :: "SnakeAI \<Rightarrow> pixel \<Rightarrow> pixel list \<Rightarrow> direction" where
  "make_safe_move ai snake_head snake_body =
     safe_move_loop ai snake_head snake_body [UP, DOWN, LEFT, RIGHT]"

text \<open>
  get_next_move. \<open>path and len(path) > 1\<close> is false for None and for the empty list.
\<close>

definition usable_path :: "pixel list option \<Rightarrow> bool" where
  "usable_path path \<longleftrightarrow> (case path of None \<Rightarrow> False | Some p \<Rightarrow> p \<noteq> [] \<and> length p > 1)"

definition get_next_move :: "SnakeAI \<Rightarrow> pixel \<Rightarrow> pixel \<Rightarrow> pixel list \<Rightarrow> direction" where
  "get_next_move ai snake_head food_pos snake_body =
     (let path = find_path (pathfinder ai) snake_head food_pos snake_body
      in if usable_path path
         then get_next_direction snake_head (the path ! 1)
         else (let tail_path = find_safe_path_to_tail (pathfinder ai) snake_head snake_body
               in if usable_path tail_path
                  then get_next_direction snake_head (the tail_path ! 1)
                  else make_safe_move ai snake_head snake_body))"

section \<open>The game (snake_ai.py, Snake.py)\<close>

text \<open>
  random.randrange(start, stop) returns one of the integers of range(start, stop). The
  model takes the drawn value as an argument; \<open>randrange\<close> is the set of values a draw
  can have.
\<close>

definition randrange :: "int \<Rightarrow> int \<Rightarrow> int set" where
  "randrange start stop = {start..<stop}"

text \<open>
  The fruit position computed from the two draws, as in reset_game, in
  check_food_collision and in the main loop of Snake.py:
  \<open>[random.randrange(1, window_x // 10) * 10, random.randrange(1, window_y // 10) * 10]\<close>.
\<close>

definition new_fruit_position :: "int \<times> int \<Rightarrow> pixel" where
  "new_fruit_position draw = (fst draw * 10, snd draw * 10)"

definition fruit_draws :: "int \<Rightarrow> int \<Rightarrow> (int \<times> int) set" where
  "fruit_draws wx wy = randrange 1 (wx div 10) \<times> randrange 1 (wy div 10)"

definition fruit_spawn_results :: "int \<Rightarrow> int \<Rightarrow> pixel set" where
  "fruit_spawn_results wx wy = new_fruit_position ` fruit_draws wx wy"

datatype game_mode = MANUAL_MODE | AI_MODE

record SnakeGame =
  window_x :: int
  window_y :: int
  snake_ai :: SnakeAI
  snake_position :: pixel
  snake_body :: "pixel list"
  fruit_position :: pixel
  fruit_spawn :: bool
  direction :: direction
  change_to :: direction
  score :: int
  game_mode :: game_mode
  path_visualization :: "pixel list"

text \<open>
  SnakeGame.update_direction: in AI mode the request is the AI's move; then the
  \<open>if\<close>/\<open>elif\<close> chain that validates the request.
\<close>

definition validate_direction :: "direction \<Rightarrow> direction \<Rightarrow> direction" where
  "validate_direction change direction0 =
     (if change = UP \<and> direction0 \<noteq> DOWN then UP
      else if change = DOWN \<and> direction0 \<noteq> UP then DOWN
      else if change = LEFT \<and> direction0 \<noteq> RIGHT then LEFT
      else if change = RIGHT \<and> direction0 \<noteq> LEFT then RIGHT
      else direction0)"

definition update_direction :: "SnakeGame \<Rightarrow> SnakeGame" where
  "update_direction g =
     (let g1 = (if game_mode g = AI_MODE
                then (let ai_direction = get_next_move (snake_ai g) (snake_position g)
                                           (fruit_position g) (snake_body g);
                          path = find_path (pathfinder (snake_ai g)) (snake_position g)
                                   (fruit_position g) (snake_body g)
                      in g\<lparr>change_to := ai_direction,
                           path_visualization := (case path of None \<Rightarrow> [] | Some p \<Rightarrow> p)\<rparr>)
                else g\<lparr>path_visualization := []\<rparr>)
      in g1\<lparr>direction := validate_direction (change_to g1) (direction g1)\<rparr>)"

definition move_snake :: "SnakeGame \<Rightarrow> SnakeGame" where
  "move_snake g = g\<lparr>snake_position := step_pos (snake_position g) (direction g)\<rparr>"

text \<open>
  SnakeGame.check_food_collision; \<open>draw\<close> holds the values of the two randrange calls,
  which are made only when the fruit has been eaten.
\<close>

definition check_food_collision :: "int \<times> int \<Rightarrow> SnakeGame \<Rightarrow> SnakeGame" where
  "check_food_collision draw g =
     (let body1 = snake_position g # snake_body g;
          g1 = (if fst (snake_position g) = fst (fruit_position g) \<and>
                   snd (snake_position g) = snd (fruit_position g)
                then g\<lparr>snake_body := body1, score := score g + 10, fruit_spawn := False\<rparr>
                else g\<lparr>snake_body := butlast body1\<rparr>);
          g2 = (if \<not> fruit_spawn g1 then g1\<lparr>fruit_position := new_fruit_position draw\<rparr>
                else g1)
      in g2\<lparr>fruit_spawn := True\<rparr>)"

definition check_collisions :: "SnakeGame \<Rightarrow> bool" where
  "check_collisions g \<longleftrightarrow>
     (fst (snake_position g) < 0 \<or> fst (snake_position g) > window_x g - 10 \<or>
      snd (snake_position g) < 0 \<or> snd (snake_position g) > window_y g - 10) \<or>
     snake_position g \<in> set (tl (snake_body g))"

text \<open>
  One pass of the loop of SnakeGame.run while the game is not over: the new state and
  whether the game is over.
\<close>

definition tick :: "int \<times> int \<Rightarrow> SnakeGame \<Rightarrow> SnakeGame \<times> bool" where
  "tick draw g =
     (let g' = check_food_collision draw (move_snake (update_direction g))
      in (g', check_collisions g'))"

text \<open>
  The main loop of Snake.py validates the request with four separate \<open>if\<close> statements,
  each reading the direction the previous one may have written.
\<close>

definition main_loop_direction :: "direction \<Rightarrow> direction \<Rightarrow> direction" where
  "main_loop_direction change direction0 =
     (let d1 = (if change = UP \<and> direction0 \<noteq> DOWN then UP else direction0);
          d2 = (if change = DOWN \<and> d1 \<noteq> UP then DOWN else d1);
          d3 = (if change = LEFT \<and> d2 \<noteq> RIGHT then LEFT else d2);
          d4 = (if change = RIGHT \<and> d3 \<noteq> LEFT then RIGHT else d3)
      in d4)"

text \<open>The direction that is the 180 degree reversal of a direction.\<close>

fun opposite :: "direction \<Rightarrow> direction" where
  "opposite UP = DOWN"
| "opposite DOWN = UP"
| "opposite LEFT = RIGHT"
| "opposite RIGHT = LEFT"

text \<open>
  SnakeGame.reset_game and SnakeGame.__init__ (window 720 x 480, manual mode); \<open>draw\<close>
  holds the two randrange values of the first fruit.
\<close>

definition initial_snake_body :: "pixel list" where
  "initial_snake_body = [(100, 50), (90, 50), (80, 50), (70, 50)]"

definition reset_game :: "int \<times> int \<Rightarrow> SnakeGame \<Rightarrow> SnakeGame" where
  "reset_game draw g =
     g\<lparr>snake_position := (100, 50),
       snake_body := initial_snake_body,
       fruit_position := new_fruit_position draw,
       fruit_spawn := True,
       direction := RIGHT,
       change_to := RIGHT,
       score := 0,
       path_visualization := []\<rparr>"

definition SnakeGame_init :: "int \<times> int \<Rightarrow> SnakeGame" where
  "SnakeGame_init draw =
     reset_game draw
       \<lparr>window_x = 720, window_y = 480, snake_ai = SnakeAI_init 720 480,
        snake_position = (0, 0), snake_body = [], fruit_position = (0, 0),
        fruit_spawn = True, direction = RIGHT, change_to = RIGHT, score = 0,
        game_mode = MANUAL_MODE, path_visualization = []\<rparr>"

section \<open>Helper lemmas\<close>

lemma init_cell_size: "AStarPathfinder_init w h cs = Some pf \<Longrightarrow> cell_size pf \<noteq> 0"
  by (auto simp: AStarPathfinder_init_def split: if_splits)

lemma validate_direction_eq:
  "validate_direction c d = (if c = opposite d then d else c)"
  by (cases c; cases d) (simp_all add: validate_direction_def)

lemma main_loop_direction_eq:
  "main_loop_direction c d = (if c = opposite d then d else c)"
  by (cases c; cases d) (simp_all add: main_loop_direction_def)

lemma direction_tick: "direction (fst (tick draw g)) = direction (update_direction g)"
  by (simp add: tick_def check_food_collision_def move_snake_def Let_def)

lemma direction_update:
  "direction (update_direction g) =
     validate_direction (change_to (update_direction g)) (direction g)"
  by (simp add: update_direction_def Let_def)

lemma fruit_spawn_results_iff:
  "(px, py) \<in> fruit_spawn_results wx wy \<longleftrightarrow>
     (\<exists>c r. px = c * 10 \<and> py = r * 10 \<and> 1 \<le> c \<and> c < wx div 10 \<and> 1 \<le> r \<and> r < wy div 10)"
  by (auto simp: fruit_spawn_results_def fruit_draws_def randrange_def new_fruit_position_def
      image_iff)

lemma safe_move_loop_find:
  "safe_move_loop ai h b ds = (case find (move_is_safe ai h b) ds of Some d \<Rightarrow> d | None \<Rightarrow> RIGHT)"
  by (induction ds) simp_all

subsection \<open>What the search loop returns\<close>

text \<open>The node that visit_neighbor pushes for a neighbor.\<close>

definition pushed_node :: "node \<Rightarrow> node \<Rightarrow> node \<Rightarrow> node" where
  "pushed_node goal_node cur nb =
     Node (node_x nb) (node_y nb) (g_cost cur + 1) (manhattan_distance nb goal_node)
       (g_cost cur + 1 + manhattan_distance nb goal_node) (Some cur)"

lemma visit_neighbor_pushed:
  "visit_neighbor pf goal_node body cur closed_set open_set nb = open_set \<or>
   (node_cell nb \<notin> closed_set \<and> node_cell nb \<notin> node_cell ` set open_set \<and>
    is_safe_position pf (node_x nb) (node_y nb) body True \<and>
    visit_neighbor pf goal_node body cur closed_set open_set nb =
      heappush open_set (pushed_node goal_node cur nb))"
  using visit_neighbor_cases[of pf goal_node body cur closed_set open_set nb]
  by (simp add: pushed_node_def)

lemma foldl_visit_nodes:
  "n \<in> set (foldl (visit_neighbor pf goal_node body cur closed_set) open_set nbs) \<Longrightarrow>
   n \<in> set open_set \<or>
   (\<exists>nb \<in> set nbs. is_safe_position pf (node_x nb) (node_y nb) body True \<and>
       node_cell nb \<notin> closed_set \<and> node_cell nb \<notin> node_cell ` set open_set \<and>
       n = pushed_node goal_node cur nb)"
proof (induction nbs arbitrary: open_set)
  case Nil
  then show ?case by simp
next
  case (Cons nb nbs)
  let ?o = "visit_neighbor pf goal_node body cur closed_set open_set nb"
  from Cons.prems have "n \<in> set (foldl (visit_neighbor pf goal_node body cur closed_set) ?o nbs)"
    by simp
  from Cons.IH[OF this] consider "n \<in> set ?o"
    | "\<exists>nb \<in> set nbs. is_safe_position pf (node_x nb) (node_y nb) body True \<and>
       node_cell nb \<notin> closed_set \<and> node_cell nb \<notin> node_cell ` set ?o \<and>
       n = pushed_node goal_node cur nb" by blast
  then show ?case
  proof cases
    case 1
    with visit_neighbor_pushed[of pf goal_node body cur closed_set open_set nb]
    show ?thesis by auto
  next
    case 2
    with visit_neighbor_pushed[of pf goal_node body cur closed_set open_set nb]
    show ?thesis by auto
  qed
qed

lemma explore_neighbors_nodes:
  "n \<in> set (explore_neighbors pf goal_node body cur closed_set open_set) \<Longrightarrow>
   n \<in> set open_set \<or>
   (\<exists>nb \<in> set (get_neighbors pf cur). is_safe_position pf (node_x nb) (node_y nb) body True \<and>
       node_cell nb \<notin> closed_set \<and> node_cell nb \<notin> node_cell ` set open_set \<and>
       n = pushed_node goal_node cur nb)"
  unfolding explore_neighbors_def by (rule foldl_visit_nodes)

text \<open>
  What the loop returns: the reconstructed path of a node that compares equal to the
  goal, and that node satisfies every property that the start node has and that the
  pushed nodes inherit from the node they are pushed for.
\<close>

lemma find_loop_Some:
  assumes "find_loop pf goal_node body open_set closed_set = Some path"
    and "\<forall>n \<in> set open_set. P n"
    and "\<forall>cur nb. P cur \<longrightarrow> nb \<in> set (get_neighbors pf cur) \<longrightarrow>
        is_safe_position pf (node_x nb) (node_y nb) body True \<longrightarrow>
        P (pushed_node goal_node cur nb)"
  shows "\<exists>n. P n \<and> node_eq n goal_node \<and> path = reconstruct_path pf n"
  using assms
proof (induction pf goal_node body open_set closed_set rule: find_loop.induct)
  case (1 pf goal_node body open_set closed_set)
  from "1.prems"(1) obtain cur open1 where pop: "heappop open_set = Some (cur, open1)"
    by (subst (asm) find_loop.simps) (auto split: option.splits)
  have cur: "P cur" and open1: "\<forall>n \<in> set open1. P n"
    using set_heappop[OF pop] "1.prems"(2) by auto
  show ?case
  proof (cases "node_eq cur goal_node")
    case True
    with "1.prems"(1) pop have "path = reconstruct_path pf cur"
      by (subst (asm) find_loop.simps) (simp add: Let_def)
    with cur True show ?thesis by blast
  next
    case False
    let ?closed1 = "insert (node_cell cur) closed_set"
    let ?open2 = "explore_neighbors pf goal_node body cur ?closed1 open1"
    from "1.prems"(1) pop False have r: "find_loop pf goal_node body ?open2 ?closed1 = Some path"
      by (subst (asm) find_loop.simps) (simp add: Let_def)
    have "\<forall>n \<in> set ?open2. P n"
    proof
      fix n assume "n \<in> set ?open2"
      from explore_neighbors_nodes[OF this] show "P n"
        using open1 cur "1.prems"(3) by blast
    qed
    from "1.IH"[OF pop refl refl False r this "1.prems"(3)] show ?thesis .
  qed
qed

text \<open>
  The nodes the search builds from a start node: the start node itself, or a node pushed
  for an in-grid, safe neighbor cell of such a node, one step further from the start.
\<close>

fun node_ok :: "AStarPathfinder \<Rightarrow> pixel list \<Rightarrow> node \<Rightarrow> node \<Rightarrow> bool" where
  "node_ok pf body start (Node x y g h f p) =
     (case p of
        None \<Rightarrow> Node x y g h f p = start
      | Some q \<Rightarrow> in_grid pf (x, y) \<and> is_safe_position pf x y body True \<and>
          \<bar>x - node_x q\<bar> + \<bar>y - node_y q\<bar> = 1 \<and> g = g_cost q + 1 \<and>
          node_ok pf body start q)"

lemma heappush_Nil [simp]: "heappush [] n = [n]"
  by (simp add: heappush_def siftdown_def siftdown_loop.simps)

lemma parent_chain_hd: "parent_chain n \<noteq> [] \<and> hd (parent_chain n) = n"
  by (cases n) simp

lemma get_neighbors_adjacent:
  "nb \<in> set (get_neighbors pf cur) \<Longrightarrow>
   \<bar>node_x nb - node_x cur\<bar> + \<bar>node_y nb - node_y cur\<bar> = 1 \<and> in_grid pf (node_x nb, node_y nb)"
  by (auto simp: get_neighbors_def directions_def Node_init_def simp del: filter.simps)

lemma node_ok_pushed:
  "node_ok pf body start cur \<Longrightarrow> nb \<in> set (get_neighbors pf cur) \<Longrightarrow>
   is_safe_position pf (node_x nb) (node_y nb) body True \<Longrightarrow>
   node_ok pf body start (pushed_node goal_node cur nb)"
  using get_neighbors_adjacent[of nb pf cur] by (simp add: pushed_node_def)

lemma node_ok_props:
  "node_ok pf body start n \<Longrightarrow>
   last (parent_chain n) = start \<and>
   (\<forall>m \<in> set (butlast (parent_chain n)).
      in_grid pf (node_cell m) \<and> is_safe_position pf (node_x m) (node_y m) body True) \<and>
   successively (\<lambda>a b. \<bar>node_x a - node_x b\<bar> + \<bar>node_y a - node_y b\<bar> = 1) (parent_chain n) \<and>
   g_cost n = g_cost start + int (length (parent_chain n)) - 1"
proof (induction pf body start n rule: node_ok.induct)
  case (1 pf body start x y g h f p)
  show ?case
  proof (cases p)
    case None
    with "1.prems" have s: "start = Node x y g h f None" by simp
    show ?thesis unfolding s None by simp
  next
    case (Some q)
    with "1.prems" have ok: "node_ok pf body start q" by simp
    note IH = "1.IH"[OF Some ok]
    from parent_chain_hd[of q] obtain r rs where c: "parent_chain q = r # rs" and r: "r = q"
      by (cases "parent_chain q") auto
    from "1.prems" Some IH c r show ?thesis
      by (simp add: node_cell_def)
  qed
qed

lemma successively_nth:
  "successively P xs \<Longrightarrow> Suc i < length xs \<Longrightarrow> P (xs ! i) (xs ! Suc i)"
proof (induction P xs arbitrary: i rule: successively.induct)
  case (3 P x y xs)
  then show ?case by (cases i) auto
qed simp_all

lemma tl_rev: "tl (rev xs) = rev (butlast xs)"
  by (induction xs) (simp_all add: tl_append split: list.splits)

text \<open>The result of find_path is the reconstructed path of an ok node at the goal cell.\<close>

lemma find_path_Some:
  assumes "find_path pf start_pos goal_pos body = Some path"
  shows "\<exists>n. node_ok pf body
               (Node_init (fst (pixel_to_grid pf (fst start_pos) (snd start_pos)))
                          (snd (pixel_to_grid pf (fst start_pos) (snd start_pos)))) n \<and>
             node_cell n = pixel_to_grid pf (fst goal_pos) (snd goal_pos) \<and>
             path = reconstruct_path pf n"
proof -
  let ?s = "Node_init (fst (pixel_to_grid pf (fst start_pos) (snd start_pos)))
                          (snd (pixel_to_grid pf (fst start_pos) (snd start_pos)))"
  let ?g = "Node_init (fst (pixel_to_grid pf (fst goal_pos) (snd goal_pos)))
                          (snd (pixel_to_grid pf (fst goal_pos) (snd goal_pos)))"
  from assms have fl: "find_loop pf ?g body [?s] {} = Some path"
    by (simp add: find_path_def Let_def)
  have s: "\<forall>n \<in> set [?s]. node_ok pf body ?s n" by (simp add: Node_init_def)
  from find_loop_Some[where P = "node_ok pf body ?s", OF fl s] node_ok_pushed
  obtain n where "node_ok pf body ?s n" "node_eq n ?g" "path = reconstruct_path pf n"
    by blast
  then show ?thesis by (auto simp: node_eq_def node_cell_def Node_init_def)
qed

lemma reconstruct_path_props:
  assumes "node_ok pf body start n" and "path = reconstruct_path pf n"
  shows "path \<noteq> []"
    and "hd path = grid_to_pixel pf (node_x start) (node_y start)"
    and "last path = grid_to_pixel pf (node_x n) (node_y n)"
    and "\<forall>p \<in> set (tl path). \<exists>m. p = grid_to_pixel pf (node_x m) (node_y m) \<and>
           in_grid pf (node_cell m) \<and> is_safe_position pf (node_x m) (node_y m) body True"
    and "successively (\<lambda>p q. \<exists>a b. p = grid_to_pixel pf (node_x a) (node_y a) \<and>
            q = grid_to_pixel pf (node_x b) (node_y b) \<and>
            \<bar>node_x a - node_x b\<bar> + \<bar>node_y a - node_y b\<bar> = 1) path"
    and "int (length path) = g_cost n - g_cost start + 1"
proof -
  note p = node_ok_props[OF assms(1)]
  note h = parent_chain_hd[of n]
  show "path \<noteq> []" using h by (simp add: assms(2) reconstruct_path_def)
  show "hd path = grid_to_pixel pf (node_x start) (node_y start)"
    using h p by (simp add: assms(2) reconstruct_path_def hd_rev last_map)
  show "last path = grid_to_pixel pf (node_x n) (node_y n)"
    using h by (simp add: assms(2) reconstruct_path_def last_rev hd_map)
  show "\<forall>p \<in> set (tl path). \<exists>m. p = grid_to_pixel pf (node_x m) (node_y m) \<and>
           in_grid pf (node_cell m) \<and> is_safe_position pf (node_x m) (node_y m) body True"
    using p by (auto simp: assms(2) reconstruct_path_def tl_rev map_butlast[symmetric])
  have "successively (\<lambda>a b. \<bar>node_x b - node_x a\<bar> + \<bar>node_y b - node_y a\<bar> = 1) (parent_chain n)"
    using p by (auto elim: successively_mono)
  then have "successively (\<lambda>b a. \<exists>a' b'. grid_to_pixel pf (node_x a) (node_y a) = grid_to_pixel pf (node_x a') (node_y a') \<and>
            grid_to_pixel pf (node_x b) (node_y b) = grid_to_pixel pf (node_x b') (node_y b') \<and>
            \<bar>node_x a' - node_x b'\<bar> + \<bar>node_y a' - node_y b'\<bar> = 1) (parent_chain n)"
    by (rule successively_mono) auto
  then show "successively (\<lambda>p q. \<exists>a b. p = grid_to_pixel pf (node_x a) (node_y a) \<and>
            q = grid_to_pixel pf (node_x b) (node_y b) \<and>
            \<bar>node_x a - node_x b\<bar> + \<bar>node_y a - node_y b\<bar> = 1) path"
    by (simp add: assms(2) reconstruct_path_def successively_map)
  show "int (length path) = g_cost n - g_cost start + 1"
    using p by (simp add: assms(2) reconstruct_path_def)
qed

lemma pixel_to_grid_to_pixel:
  "cell_size pf \<noteq> 0 \<Longrightarrow>
   pixel_to_grid pf (fst (grid_to_pixel pf x y)) (snd (grid_to_pixel pf x y)) = (x, y)"
  by (simp add: pixel_to_grid_def grid_to_pixel_def)

lemma unsafe_goal_no_path:
  assumes "\<not> is_safe_position pf (fst (pixel_to_grid pf (fst goal_pos) (snd goal_pos)))
              (snd (pixel_to_grid pf (fst goal_pos) (snd goal_pos))) body True"
    and "pixel_to_grid pf (fst goal_pos) (snd goal_pos) \<noteq>
         pixel_to_grid pf (fst start_pos) (snd start_pos)"
  shows "find_path pf start_pos goal_pos body = None"
proof (rule ccontr)
  assume "find_path pf start_pos goal_pos body \<noteq> None"
  then obtain path where f: "find_path pf start_pos goal_pos body = Some path" by auto
  from find_path_Some[OF f] obtain n where
    ok: "node_ok pf body
               (Node_init (fst (pixel_to_grid pf (fst start_pos) (snd start_pos)))
                          (snd (pixel_to_grid pf (fst start_pos) (snd start_pos)))) n"
    and g: "node_cell n = pixel_to_grid pf (fst goal_pos) (snd goal_pos)" by blast
  from g have xy: "node_x n = fst (pixel_to_grid pf (fst goal_pos) (snd goal_pos))"
    "node_y n = snd (pixel_to_grid pf (fst goal_pos) (snd goal_pos))"
    by (simp_all add: node_cell_def prod_eq_iff)
  show False
  proof (cases n)
    case (Node x y g' h' f' p)
    show ?thesis
    proof (cases p)
      case None
      with ok Node have "n = Node_init (fst (pixel_to_grid pf (fst start_pos) (snd start_pos)))
                          (snd (pixel_to_grid pf (fst start_pos) (snd start_pos)))"
        by simp
      with xy assms(2) show False by (simp add: Node_init_def prod_eq_iff)
    next
      case (Some q)
      with ok Node have "is_safe_position pf (node_x n) (node_y n) body True" by simp
      with xy assms(1) show False by simp
    qed
  qed
qed

subsection \<open>Every cell is popped at most once\<close>

definition frontier_ok :: "AStarPathfinder \<Rightarrow> cell \<Rightarrow> node list \<Rightarrow> cell set \<Rightarrow> bool" where
  "frontier_ok pf s open_set closed_set \<longleftrightarrow>
     distinct (map node_cell open_set) \<and> node_cell ` set open_set \<inter> closed_set = {} \<and>
     (\<forall>n \<in> set open_set. in_grid pf (node_cell n) \<or> node_cell n = s)"

lemma distinct_cells_heappush:
  "distinct (map node_cell (heappush open_set n)) \<longleftrightarrow>
   node_cell n \<notin> node_cell ` set open_set \<and> distinct (map node_cell open_set)"
proof -
  have "mset (map node_cell (heappush open_set n)) = mset (map node_cell (n # open_set))"
    by simp
  then have "distinct (map node_cell (heappush open_set n)) = distinct (map node_cell (n # open_set))"
    by (rule mset_eq_imp_distinct_iff)
  then show ?thesis by simp
qed

lemma distinct_cells_heappop:
  assumes "heappop open_set = Some (cur, open1)"
  shows "distinct (map node_cell open_set) \<longleftrightarrow>
   node_cell cur \<notin> node_cell ` set open1 \<and> distinct (map node_cell open1)"
proof -
  have "mset (map node_cell open_set) = mset (map node_cell (cur # open1))"
    using heappop_Some[OF assms] by simp
  then have "distinct (map node_cell open_set) = distinct (map node_cell (cur # open1))"
    by (rule mset_eq_imp_distinct_iff)
  then show ?thesis by simp
qed

lemma frontier_ok_visit:
  assumes "frontier_ok pf s open_set closed_set" "in_grid pf (node_cell nb)"
  shows "frontier_ok pf s (visit_neighbor pf goal_node body cur closed_set open_set nb) closed_set"
proof -
  have c: "node_cell (pushed_node goal_node cur nb) = node_cell nb"
    by (simp add: pushed_node_def node_cell_def)
  from visit_neighbor_pushed[of pf goal_node body cur closed_set open_set nb]
  show ?thesis
  proof
    assume "visit_neighbor pf goal_node body cur closed_set open_set nb = open_set"
    with assms show ?thesis by simp
  next
    assume a: "node_cell nb \<notin> closed_set \<and> node_cell nb \<notin> node_cell ` set open_set \<and>
      is_safe_position pf (node_x nb) (node_y nb) body True \<and>
      visit_neighbor pf goal_node body cur closed_set open_set nb =
        heappush open_set (pushed_node goal_node cur nb)"
    then have "frontier_ok pf s (heappush open_set (pushed_node goal_node cur nb)) closed_set"
      using assms unfolding frontier_ok_def distinct_cells_heappush c
      by (simp add: c)
    with a show ?thesis by simp
  qed
qed

lemma frontier_ok_foldl:
  "frontier_ok pf s open_set closed_set \<Longrightarrow> \<forall>nb \<in> set nbs. in_grid pf (node_cell nb) \<Longrightarrow>
   frontier_ok pf s (foldl (visit_neighbor pf goal_node body cur closed_set) open_set nbs) closed_set"
  by (induction nbs arbitrary: open_set) (simp_all add: frontier_ok_visit)

lemma frontier_ok_explore:
  "frontier_ok pf s open_set closed_set \<Longrightarrow>
   frontier_ok pf s (explore_neighbors pf goal_node body cur closed_set open_set) closed_set"
  unfolding explore_neighbors_def
  by (rule frontier_ok_foldl) (simp_all add: get_neighbors_in_grid)

lemma frontier_ok_pop:
  assumes "frontier_ok pf s open_set closed_set" "heappop open_set = Some (cur, open1)"
  shows "frontier_ok pf s open1 (insert (node_cell cur) closed_set)"
    and "node_cell cur \<notin> closed_set"
    and "in_grid pf (node_cell cur) \<or> node_cell cur = s"
  using assms set_heappop[OF assms(2)] distinct_cells_heappop[OF assms(2)]
  by (auto simp: frontier_ok_def)

lemma popped_cells_props:
  "frontier_ok pf s open_set closed_set \<Longrightarrow>
   distinct (popped_cells pf goal_node body open_set closed_set) \<and>
   set (popped_cells pf goal_node body open_set closed_set) \<inter> closed_set = {} \<and>
   set (popped_cells pf goal_node body open_set closed_set) \<subseteq> insert s {c. in_grid pf c}"
proof (induction pf goal_node body open_set closed_set rule: popped_cells.induct)
  case (1 pf goal_node body open_set closed_set)
  show ?case
  proof (cases "heappop open_set")
    case None
    then have "popped_cells pf goal_node body open_set closed_set = []"
      by (subst popped_cells.simps) (simp add: heappop_def)
    then show ?thesis by simp
  next
    case (Some a)
    then obtain cur open1 where pop: "heappop open_set = Some (cur, open1)" by (cases a) auto
    note p = frontier_ok_pop[OF "1.prems" pop]
    show ?thesis
    proof (cases "node_eq cur goal_node")
      case True
      have "popped_cells pf goal_node body open_set closed_set = [node_cell cur]"
        using pop True by (subst popped_cells.simps) (simp add: Let_def)
      with p show ?thesis by auto
    next
      case False
      let ?closed1 = "insert (node_cell cur) closed_set"
      let ?open2 = "explore_neighbors pf goal_node body cur ?closed1 open1"
      have eq: "popped_cells pf goal_node body open_set closed_set =
          node_cell cur # popped_cells pf goal_node body ?open2 ?closed1"
        using pop False by (subst popped_cells.simps) (simp add: Let_def)
      have "frontier_ok pf s ?open2 ?closed1"
        using p(1) by (rule frontier_ok_explore)
      from "1.IH"[OF pop refl refl False this] p(2,3) show ?thesis
        unfolding eq by auto
    qed
  qed
qed

lemma node_eq_cell: "node_eq a b \<longleftrightarrow> node_cell a = node_cell b"
  by (simp add: node_eq_def node_cell_def)

lemma find_loop_popped_cells:
  "find_loop pf goal_node body open_set closed_set = None \<longleftrightarrow>
   node_cell goal_node \<notin> set (popped_cells pf goal_node body open_set closed_set)"
proof (induction pf goal_node body open_set closed_set rule: find_loop.induct)
  case (1 pf goal_node body open_set closed_set)
  show ?case
  proof (cases "heappop open_set")
    case None
    then show ?thesis
      by (subst find_loop.simps, subst popped_cells.simps) (simp add: heappop_def)
  next
    case (Some a)
    then obtain cur open1 where pop: "heappop open_set = Some (cur, open1)" by (cases a) auto
    show ?thesis
    proof (cases "node_eq cur goal_node")
      case True
      then show ?thesis using pop
        by (subst find_loop.simps, subst popped_cells.simps) (simp add: Let_def node_eq_cell)
    next
      case False
      with "1.IH"[OF pop refl refl False] pop show ?thesis
        by (subst find_loop.simps, subst popped_cells.simps) (simp add: Let_def node_eq_cell)
    qed
  qed
qed

lemma card_in_grid: "card {c. in_grid pf c} = nat (grid_cols pf) * nat (grid_rows pf)"
proof -
  have "{c. in_grid pf c} = {0..<grid_cols pf} \<times> {0..<grid_rows pf}"
    by (auto simp: in_grid_def)
  then show ?thesis by (simp add: card_cartesian_product)
qed

subsection \<open>heapq keeps the heap order\<close>

text \<open>The heap order on the list: no item is smaller than its parent.\<close>

definition heap_ok :: "node list \<Rightarrow> bool" where
  "heap_ok h \<longleftrightarrow>
     (\<forall>i. 0 < i \<and> i < length h \<longrightarrow> f_cost (h ! ((i - 1) div 2)) \<le> f_cost (h ! i))"

text \<open>
  The heap order everywhere but between \<open>pos\<close> and its parent; the children of \<open>pos\<close>
  are not smaller than the parent of \<open>pos\<close>. This is what \<open>siftdown\<close> maintains while
  the item at \<open>pos\<close> moves towards the root.
\<close>

definition sift_inv :: "node list \<Rightarrow> nat \<Rightarrow> bool" where
  "sift_inv v pos \<longleftrightarrow>
     (\<forall>i. 0 < i \<and> i < length v \<and> i \<noteq> pos \<longrightarrow>
          f_cost (v ! ((i - 1) div 2)) \<le> f_cost (v ! i)) \<and>
     (0 < pos \<longrightarrow>
        (\<forall>i. 0 < i \<and> i < length v \<and> (i - 1) div 2 = pos \<longrightarrow>
           f_cost (v ! ((pos - 1) div 2)) \<le> f_cost (v ! i)))"

text \<open>
  The heap order among the positions other than the hole \<open>pos\<close>: what the loop of
  \<open>siftup\<close> maintains while the hole moves to a leaf.
\<close>

definition hole_inv :: "node list \<Rightarrow> nat \<Rightarrow> bool" where
  "hole_inv h pos \<longleftrightarrow>
     (\<forall>i. 0 < i \<and> i < length h \<and> i \<noteq> pos \<and> (i - 1) div 2 \<noteq> pos \<longrightarrow>
          f_cost (h ! ((i - 1) div 2)) \<le> f_cost (h ! i)) \<and>
     (0 < pos \<longrightarrow>
        (\<forall>i. 0 < i \<and> i < length h \<and> (i - 1) div 2 = pos \<longrightarrow>
           f_cost (h ! ((pos - 1) div 2)) \<le> f_cost (h ! i)))"

lemma parent_less: "0 < i \<Longrightarrow> (i - 1) div 2 < (i::nat)"
  by arith

lemma heap_ok_min: "heap_ok h \<Longrightarrow> i < length h \<Longrightarrow> f_cost (h ! 0) \<le> f_cost (h ! i)"
proof (induction i rule: less_induct)
  case (less i)
  show ?case
  proof (cases "i = 0")
    case True
    then show ?thesis by simp
  next
    case False
    then have p: "(i - 1) div 2 < i" by (auto intro!: parent_less)
    with less.prems have "f_cost (h ! 0) \<le> f_cost (h ! ((i - 1) div 2))"
      by (intro less.IH) auto
    moreover have "f_cost (h ! ((i - 1) div 2)) \<le> f_cost (h ! i)"
      using less.prems False by (simp add: heap_ok_def)
    ultimately show ?thesis by linarith
  qed
qed

lemma sift_inv_step:
  assumes inv: "sift_inv (heap[pos := newitem]) pos" and pos: "pos < length heap" "0 < pos"
    and lt: "f_cost newitem < f_cost (heap ! ((pos - 1) div 2))"
  shows "sift_inv (heap[pos := heap ! ((pos - 1) div 2), (pos - 1) div 2 := newitem])
           ((pos - 1) div 2)"
proof -
  let ?pp = "(pos - 1) div 2"
  let ?v = "heap[pos := newitem]"
  let ?v' = "heap[pos := heap ! ?pp, ?pp := newitem]"
  have pp: "?pp < pos" using pos by (auto intro!: parent_less)
  have n: "length ?v' = length heap" "length ?v = length heap" by simp_all
  have a: "f_cost (?v ! ((i - 1) div 2)) \<le> f_cost (?v ! i)"
    if "0 < i" "i < length heap" "i \<noteq> pos" for i
    using inv that unfolding sift_inv_def n by blast
  have b: "f_cost (?v ! ?pp) \<le> f_cost (?v ! i)"
    if "0 < i" "i < length heap" "(i - 1) div 2 = pos" for i
    using inv that pos unfolding sift_inv_def n by blast
  have vpp: "?v ! ?pp = heap ! ?pp" using pp by simp
  have v'pp: "?v' ! ?pp = newitem" using pp pos by simp
  have v'pos: "?v' ! pos = heap ! ?pp" using pp pos by simp
  have v'oth: "?v' ! i = ?v ! i" if "i \<noteq> pos" "i \<noteq> ?pp" for i using that by simp
  have A: "f_cost (?v' ! ((i - 1) div 2)) \<le> f_cost (?v' ! i)"
    if i: "0 < i" "i < length heap" "i \<noteq> ?pp" for i
  proof (cases "i = pos")
    case True
    then show ?thesis using v'pp v'pos lt by simp
  next
    case False
    show ?thesis
    proof (cases "(i - 1) div 2 = ?pp")
      case True
      have "f_cost (?v ! ?pp) \<le> f_cost (?v ! i)" using a[OF i(1,2) False] True by simp
      then show ?thesis using True v'pp v'oth[OF False i(3)] vpp lt by simp
    next
      case np: False
      show ?thesis
      proof (cases "(i - 1) div 2 = pos")
        case True
        from b[OF i(1,2) True] show ?thesis
          using True v'pos v'oth[OF False i(3)] vpp by simp
      next
        case False2: False
        from a[OF i(1,2) False] show ?thesis
          using v'oth[OF False i(3)] v'oth[OF False2 np] by simp
      qed
    qed
  qed
  have B: "f_cost (?v' ! ((?pp - 1) div 2)) \<le> f_cost (?v' ! i)"
    if pp0: "0 < ?pp" and i: "0 < i" "i < length heap" "(i - 1) div 2 = ?pp" for i
  proof -
    have g: "(?pp - 1) div 2 < ?pp" using pp0 by (rule parent_less)
    have "?v' ! ((?pp - 1) div 2) = ?v ! ((?pp - 1) div 2)"
      using g pp by (intro v'oth) auto
    moreover have "f_cost (?v ! ((?pp - 1) div 2)) \<le> f_cost (?v ! ?pp)"
    proof (rule a)
      show "0 < ?pp" by (rule pp0)
      show "?pp < length heap" using pp pos by linarith
      show "?pp \<noteq> pos" using pp by linarith
    qed
    ultimately have 1: "f_cost (?v' ! ((?pp - 1) div 2)) \<le> f_cost (heap ! ?pp)"
      using vpp by simp
    show ?thesis
    proof (cases "i = pos")
      case True
      with 1 v'pos show ?thesis by simp
    next
      case False
      have "i \<noteq> ?pp" using i by auto
      from a[OF i(1,2) False] i(3) vpp have "f_cost (heap ! ?pp) \<le> f_cost (?v ! i)" by simp
      with 1 v'oth[OF False \<open>i \<noteq> ?pp\<close>] show ?thesis by simp
    qed
  qed
  show ?thesis unfolding sift_inv_def n using A B by blast
qed

lemma siftdown_loop_heap_ok:
  "pos < length heap \<Longrightarrow> sift_inv (heap[pos := newitem]) pos \<Longrightarrow> startpos = 0 \<Longrightarrow>
   heap_ok (siftdown_loop heap startpos newitem pos)"
proof (induction heap startpos newitem pos rule: siftdown_loop.induct)
  case (1 heap startpos newitem pos)
  let ?pp = "(pos - 1) div 2"
  show ?case
  proof (cases "0 < pos \<and> node_lt newitem (heap ! ?pp)")
    case True
    then have eq: "siftdown_loop heap startpos newitem pos =
        siftdown_loop (heap[pos := heap ! ?pp]) startpos newitem ?pp"
      using "1.prems"(3) by (subst siftdown_loop.simps) (simp add: Let_def)
    have pp: "?pp < pos" using True by (auto intro!: parent_less)
    have "sift_inv ((heap[pos := heap ! ?pp])[?pp := newitem]) ?pp"
      using sift_inv_step[OF "1.prems"(2,1)] True by (simp add: node_lt_def)
    from "1.IH"[OF _ refl refl _ _ this "1.prems"(3)] True pp "1.prems"(1,3)
    show ?thesis unfolding eq by simp
  next
    case False
    then have eq: "siftdown_loop heap startpos newitem pos = heap[pos := newitem]"
      using "1.prems"(3) by (subst siftdown_loop.simps) (auto simp: Let_def)
    have "f_cost ((heap[pos := newitem]) ! ((i - 1) div 2)) \<le> f_cost ((heap[pos := newitem]) ! i)"
      if i: "0 < i" "i < length heap" for i
    proof (cases "i = pos")
      case True
      with False i have "\<not> node_lt newitem (heap ! ?pp)" by simp
      moreover have "?pp < pos" using True i by (auto intro!: parent_less)
      ultimately show ?thesis using True i by (simp add: node_lt_def)
    next
      case False
      with "1.prems"(2) i show ?thesis unfolding sift_inv_def by simp
    qed
    then show ?thesis unfolding eq heap_ok_def by simp
  qed
qed

lemma heap_ok_heappush: "heap_ok h \<Longrightarrow> heap_ok (heappush h x)"
proof -
  assume h: "heap_ok h"
  have "sift_inv (h @ [x]) (length h)"
    unfolding sift_inv_def
  proof (intro conjI allI impI)
    fix i assume i: "0 < i \<and> i < length (h @ [x]) \<and> i \<noteq> length h"
    then have "i < length h" by auto
    moreover have "(i - 1) div 2 < i" using i by (auto intro!: parent_less)
    ultimately have "i < length h" "(i - 1) div 2 < length h" by auto
    with h i show "f_cost ((h @ [x]) ! ((i - 1) div 2)) \<le> f_cost ((h @ [x]) ! i)"
      by (simp add: nth_append heap_ok_def)
  next
    fix i assume "0 < length h" and i: "0 < i \<and> i < length (h @ [x]) \<and> (i - 1) div 2 = length h"
    then have "(i - 1) div 2 < i" by (auto intro!: parent_less)
    with i have False by simp
    then show "f_cost ((h @ [x]) ! ((length h - 1) div 2)) \<le> f_cost ((h @ [x]) ! i)" ..
  qed
  then have "sift_inv ((h @ [x])[length h := x]) (length h)" by simp
  then have "heap_ok (siftdown_loop (h @ [x]) 0 x (length h))"
    by (intro siftdown_loop_heap_ok) simp_all
  then show ?thesis by (simp add: heappush_def siftdown_def)
qed

lemma parent_eq: "0 < i \<Longrightarrow> (i - 1) div 2 = p \<longleftrightarrow> i = 2 * p + 1 \<or> i = 2 * p + 2" for i p :: nat
  by arith

lemma hole_inv_step:
  assumes inv: "hole_inv h pos" and l: "2 * pos + 1 < length h"
    and c: "c = (if 2 * pos + 1 + 1 < length h \<and> \<not> node_lt (h ! (2 * pos + 1)) (h ! (2 * pos + 1 + 1))
                 then 2 * pos + 1 + 1 else 2 * pos + 1)"
  shows "hole_inv (h[pos := h ! c]) c"
proof -
  let ?h' = "h[pos := h ! c]"
  have cl: "c < length h" "pos < c" "0 < c" "(c - 1) div 2 = pos"
    using l by (auto simp: c)
  have pos: "pos < length h" using l by simp
  have a: "f_cost (h ! ((i - 1) div 2)) \<le> f_cost (h ! i)"
    if "0 < i" "i < length h" "i \<noteq> pos" "(i - 1) div 2 \<noteq> pos" for i
    using inv that unfolding hole_inv_def by blast
  have b: "f_cost (h ! ((pos - 1) div 2)) \<le> f_cost (h ! i)"
    if "0 < pos" "0 < i" "i < length h" "(i - 1) div 2 = pos" for i
    using inv that unfolding hole_inv_def by blast
  have choice: "f_cost (h ! c) \<le> f_cost (h ! i)"
    if i: "0 < i" "i < length h" "(i - 1) div 2 = pos" for i
  proof -
    from i(1,3) have "i = 2 * pos + 1 \<or> i = 2 * pos + 2" by arith
    then show ?thesis using i(2) by (auto simp: c node_lt_def)
  qed
  have A: "f_cost (?h' ! ((i - 1) div 2)) \<le> f_cost (?h' ! i)"
    if i: "0 < i" "i < length h" "i \<noteq> c" "(i - 1) div 2 \<noteq> c" for i
  proof (cases "i = pos")
    case True
    have "(pos - 1) div 2 < pos" using i True by (auto intro!: parent_less)
    then have "?h' ! ((pos - 1) div 2) = h ! ((pos - 1) div 2)" by simp
    moreover have "f_cost (h ! ((pos - 1) div 2)) \<le> f_cost (h ! c)"
      using b[of c] cl i True by simp
    ultimately show ?thesis using True pos by simp
  next
    case False
    show ?thesis
    proof (cases "(i - 1) div 2 = pos")
      case True
      from choice[OF i(1,2) True] show ?thesis using True False pos by simp
    next
      case np: False
      from a[OF i(1,2) False np] show ?thesis using False np by simp
    qed
  qed
  have B: "f_cost (?h' ! ((c - 1) div 2)) \<le> f_cost (?h' ! i)"
    if i: "0 < i" "i < length h" "(i - 1) div 2 = c" for i
  proof -
    have "c < i" using parent_less[OF i(1)] i(3) by simp
    then have ip: "i \<noteq> pos" using cl by simp
    have "f_cost (h ! c) \<le> f_cost (h ! i)"
      using a[OF i(1,2) ip] i(3) cl by simp
    then show ?thesis using cl ip pos by simp
  qed
  show ?thesis unfolding hole_inv_def using A B by simp
qed

lemma siftup_loop_hole:
  "siftup_loop h pos = (h', pos') \<Longrightarrow> hole_inv h pos \<Longrightarrow>
   hole_inv h' pos' \<and> \<not> 2 * pos' + 1 < length h'"
proof (induction h pos arbitrary: h' pos' rule: siftup_loop.induct)
  case (1 heap pos)
  show ?case
  proof (cases "2 * pos + 1 < length heap")
    case True
    define c where "c = (if 2 * pos + 1 + 1 < length heap \<and> \<not> node_lt (heap ! (2 * pos + 1)) (heap ! (2 * pos + 1 + 1))
                             then 2 * pos + 1 + 1 else 2 * pos + 1)"
    have eq: "siftup_loop heap pos = siftup_loop (heap[pos := heap ! c]) c"
      using True by (subst siftup_loop.simps) (simp add: Let_def c_def)
    have "hole_inv (heap[pos := heap ! c]) c"
      using "1.prems"(2) True c_def by (rule hole_inv_step)
    from "1.IH"[OF refl refl True refl refl, folded c_def, of h' pos'] eq "1.prems"(1) this
    show ?thesis by simp
  next
    case False
    with "1.prems" show ?thesis by (subst (asm) siftup_loop.simps) (simp add: Let_def)
  qed
qed

lemma hole_inv_leaf:
  assumes "hole_inv h pos" "\<not> 2 * pos + 1 < length h"
  shows "sift_inv (h[pos := x]) pos"
proof -
  have leaf: "(i - 1) div 2 \<noteq> pos" if "0 < i" "i < length h" for i
    using that assms(2) by arith
  have "f_cost ((h[pos := x]) ! ((i - 1) div 2)) \<le> f_cost ((h[pos := x]) ! i)"
    if i: "0 < i" "i < length h" "i \<noteq> pos" for i
    using assms(1) i leaf[OF i(1,2)] unfolding hole_inv_def by simp
  then show ?thesis unfolding sift_inv_def using leaf by auto
qed

lemma heap_ok_siftup_root:
  assumes "hole_inv h 0" "h \<noteq> []"
  shows "heap_ok (siftup h 0)"
proof -
  obtain h' pos' where s: "siftup_loop h 0 = (h', pos')" by (cases "siftup_loop h 0")
  from siftup_loop_props[OF s] assms(2) have l: "length h' = length h" "pos' < length h" by auto
  from siftup_loop_hole[OF s assms(1)] have "sift_inv (h'[pos' := h ! 0]) pos'"
    by (auto intro: hole_inv_leaf)
  then have "sift_inv ((h'[pos' := h ! 0])[pos' := h ! 0]) pos'" by simp
  then have "heap_ok (siftdown_loop (h'[pos' := h ! 0]) 0 (h ! 0) pos')"
    using l by (intro siftdown_loop_heap_ok) simp_all
  then show ?thesis using s l by (simp add: siftup_def siftdown_def Let_def)
qed

lemma heap_ok_heappop:
  assumes "heap_ok h" "heappop h = Some (x, h')"
  shows "heap_ok h'" and "\<forall>y \<in> set h. f_cost x \<le> f_cost y"
proof -
  from assms(2) have ne: "h \<noteq> []" by (auto simp: heappop_def)
  have x: "x = h ! 0"
  proof -
    from ne obtain xs l where h: "h = xs @ [l]" by (metis rev_exhaust)
    show ?thesis
    proof (cases xs)
      case Nil
      with assms(2) h show ?thesis by (simp add: heappop_def)
    next
      case (Cons a as)
      with assms(2) h show ?thesis by (auto simp: heappop_def Let_def)
    qed
  qed
  show "\<forall>y \<in> set h. f_cost x \<le> f_cost y"
    unfolding x using heap_ok_min[OF assms(1)] by (auto simp: in_set_conv_nth)
  show "heap_ok h'"
  proof (cases "butlast h = []")
    case True
    with assms(2) ne have "h' = []" by (simp add: heappop_def Let_def)
    then show ?thesis by (simp add: heap_ok_def)
  next
    case False
    let ?h1 = "butlast h"
    from assms(2) ne False have h': "h' = siftup (?h1[0 := last h]) 0"
      by (simp add: heappop_def Let_def)
    have "hole_inv (?h1[0 := last h]) 0"
      unfolding hole_inv_def
    proof (intro conjI allI impI)
      fix i assume i: "0 < i \<and> i < length (?h1[0 := last h]) \<and> i \<noteq> 0 \<and> (i - 1) div 2 \<noteq> 0"
      then have il: "i < length h - 1" by simp
      have pl: "(i - 1) div 2 < i" using i by (auto intro!: parent_less)
      have "0 < i \<and> i < length h" using i il by linarith
      then have "f_cost (h ! ((i - 1) div 2)) \<le> f_cost (h ! i)"
        using assms(1) unfolding heap_ok_def by blast
      then show "f_cost ((?h1[0 := last h]) ! ((i - 1) div 2)) \<le> f_cost ((?h1[0 := last h]) ! i)"
        using i il pl by (simp add: nth_butlast)
    qed simp
    then show ?thesis unfolding h' using False by (intro heap_ok_siftup_root) simp_all
  qed
qed

subsection \<open>Shortest paths where no body cell lies between start and goal\<close>

text \<open>The Manhattan distance of two cells: manhattan_distance on their nodes.\<close>

definition cell_distance :: "cell \<Rightarrow> cell \<Rightarrow> int" where
  "cell_distance a b = \<bar>fst a - fst b\<bar> + \<bar>snd a - snd b\<bar>"

lemma manhattan_cell_distance:
  "manhattan_distance a b = cell_distance (node_cell a) (node_cell b)"
  by (simp add: manhattan_distance_def cell_distance_def node_cell_def)

lemma cell_distance_triangle: "cell_distance a c \<le> cell_distance a b + cell_distance b c"
  unfolding cell_distance_def by linarith

lemma cell_distance_sym: "cell_distance a b = cell_distance b a"
  unfolding cell_distance_def by linarith

lemma cell_distance_self [simp]: "cell_distance a a = 0"
  unfolding cell_distance_def by simp

lemma cell_distance_nonneg [simp]: "0 \<le> cell_distance a b"
  unfolding cell_distance_def by linarith

lemma cell_distance_0: "cell_distance a b = 0 \<longleftrightarrow> a = b"
  unfolding cell_distance_def by (auto simp: prod_eq_iff)

text \<open>From a cell on a shortest path that is not the goal, one step towards the goal.\<close>

lemma toward_goal:
  assumes "c \<noteq> G" "cell_distance S c + cell_distance c G = cell_distance S G"
  shows "\<exists>n. cell_distance c n = 1 \<and> cell_distance n G = cell_distance c G - 1 \<and>
             cell_distance S n + cell_distance n G = cell_distance S G"
proof -
  from assms(1) consider "fst c < fst G" | "fst G < fst c" | "fst c = fst G" "snd c < snd G"
    | "fst c = fst G" "snd G < snd c"
    by (metis linorder_neqE_linordered_idom prod_eq_iff)
  then show ?thesis
  proof cases
    case 1
    with assms(2) show ?thesis
      unfolding cell_distance_def
      by (intro exI[of _ "(fst c + 1, snd c)"]) (simp only: fst_conv snd_conv, intro conjI; linarith)
  next
    case 2
    with assms(2) show ?thesis
      unfolding cell_distance_def
      by (intro exI[of _ "(fst c - 1, snd c)"]) (simp only: fst_conv snd_conv, intro conjI; linarith)
  next
    case 3
    with assms(2) show ?thesis
      unfolding cell_distance_def
      by (intro exI[of _ "(fst c, snd c + 1)"]) (simp only: fst_conv snd_conv, intro conjI; linarith)
  next
    case 4
    with assms(2) show ?thesis
      unfolding cell_distance_def
      by (intro exI[of _ "(fst c, snd c - 1)"]) (simp only: fst_conv snd_conv, intro conjI; linarith)
  qed
qed

lemma between_in_grid:
  assumes "in_grid pf S" "in_grid pf G" "cell_distance S c + cell_distance c G = cell_distance S G"
  shows "in_grid pf c"
  using assms unfolding in_grid_def cell_distance_def by linarith

lemma neighbor_exists:
  assumes "in_grid pf n" "cell_distance (node_cell cur) n = 1"
  shows "\<exists>nb \<in> set (get_neighbors pf cur). node_cell nb = n"
proof -
  from assms(2) have "(fst n - node_x cur, snd n - node_y cur) \<in> set directions"
    unfolding cell_distance_def node_cell_def directions_def
    by (simp add: prod_eq_iff) linarith
  moreover have "in_grid pf (node_x cur + (fst n - node_x cur), node_y cur + (snd n - node_y cur))"
    using assms(1) by simp
  ultimately have "Node_init (node_x cur + (fst n - node_x cur)) (node_y cur + (snd n - node_y cur))
      \<in> set (get_neighbors pf cur)"
    unfolding get_neighbors_def by (force simp del: filter.simps)
  then show ?thesis by (intro bexI[of _ "Node_init (fst n) (snd n)"]) (simp_all add: node_cell_def Node_init_def)
qed

lemma visit_neighbor_mono:
  "set open_set \<subseteq> set (visit_neighbor pf goal_node body cur closed_set open_set nb)"
  using visit_neighbor_pushed[of pf goal_node body cur closed_set open_set nb] by auto

lemma foldl_visit_mono:
  "set open_set \<subseteq> set (foldl (visit_neighbor pf goal_node body cur closed_set) open_set nbs)"
proof (induction nbs arbitrary: open_set)
  case Nil
  then show ?case by simp
next
  case (Cons nb nbs)
  from visit_neighbor_mono[of open_set pf goal_node body cur closed_set nb] Cons[of "visit_neighbor pf goal_node body cur closed_set open_set nb"]
  show ?case by auto
qed

lemma explore_neighbors_mono:
  "set open_set \<subseteq> set (explore_neighbors pf goal_node body cur closed_set open_set)"
  unfolding explore_neighbors_def by (rule foldl_visit_mono)

lemma visit_neighbor_enters:
  assumes "is_safe_position pf (node_x nb) (node_y nb) body True" "node_cell nb \<notin> closed_set"
  shows "node_cell nb \<in> node_cell ` set (visit_neighbor pf goal_node body cur closed_set open_set nb)"
proof (cases "find (\<lambda>n. node_eq n nb) open_set")
  case None
  with assms show ?thesis by (simp add: visit_neighbor_def Let_def node_cell_def)
next
  case (Some e)
  then have "node_cell nb \<in> node_cell ` set open_set"
    using find_node_eq_None[of nb open_set] by simp
  with assms Some show ?thesis by (simp add: visit_neighbor_def Let_def)
qed

lemma foldl_visit_covers:
  "nb \<in> set nbs \<Longrightarrow> is_safe_position pf (node_x nb) (node_y nb) body True \<Longrightarrow>
   node_cell nb \<notin> closed_set \<Longrightarrow>
   node_cell nb \<in> node_cell ` set (foldl (visit_neighbor pf goal_node body cur closed_set) open_set nbs)"
proof (induction nbs arbitrary: open_set)
  case Nil
  then show ?case by simp
next
  case (Cons a nbs)
  let ?o = "visit_neighbor pf goal_node body cur closed_set open_set a"
  show ?case
  proof (cases "nb = a")
    case True
    have "node_cell nb \<in> node_cell ` set ?o"
      unfolding True[symmetric] using Cons.prems(2,3) by (rule visit_neighbor_enters)
    then show ?thesis
      using foldl_visit_mono[of ?o pf goal_node body cur closed_set nbs] by auto
  next
    case False
    with Cons.prems have "nb \<in> set nbs" by simp
    from Cons.IH[OF this Cons.prems(2,3), of ?o] show ?thesis by simp
  qed
qed

lemma explore_neighbors_covers:
  "nb \<in> set (get_neighbors pf cur) \<Longrightarrow> is_safe_position pf (node_x nb) (node_y nb) body True \<Longrightarrow>
   node_cell nb \<notin> closed_set \<Longrightarrow>
   node_cell nb \<in> node_cell ` set (explore_neighbors pf goal_node body cur closed_set open_set)"
  unfolding explore_neighbors_def by (rule foldl_visit_covers)

lemma heap_ok_visit:
  "heap_ok open_set \<Longrightarrow> heap_ok (visit_neighbor pf goal_node body cur closed_set open_set nb)"
  using visit_neighbor_pushed[of pf goal_node body cur closed_set open_set nb]
  by (auto simp: heap_ok_heappush)

lemma heap_ok_explore:
  "heap_ok open_set \<Longrightarrow> heap_ok (explore_neighbors pf goal_node body cur closed_set open_set)"
proof -
  have "heap_ok open_set \<Longrightarrow>
      heap_ok (foldl (visit_neighbor pf goal_node body cur closed_set) open_set nbs)" for nbs
    by (induction nbs arbitrary: open_set) (simp_all add: heap_ok_visit)
  then show "heap_ok open_set \<Longrightarrow> ?thesis" unfolding explore_neighbors_def .
qed

text \<open>
  The invariant of the search loop when every cell between start \<open>S\<close> and goal \<open>G\<close>
  (every cell on a shortest grid path), the start apart, is safe.
\<close>

definition clear_between :: "AStarPathfinder \<Rightarrow> pixel list \<Rightarrow> cell \<Rightarrow> cell \<Rightarrow> bool" where
  "clear_between pf body S G \<longleftrightarrow>
     in_grid pf S \<and> in_grid pf G \<and>
     (\<forall>c. cell_distance S c + cell_distance c G = cell_distance S G \<and> c \<noteq> S \<longrightarrow>
          is_safe_position pf (fst c) (snd c) body True)"

definition node_inv :: "cell \<Rightarrow> cell \<Rightarrow> cell set \<Rightarrow> node \<Rightarrow> bool" where
  "node_inv S G closed_set n \<longleftrightarrow>
     h_cost n = cell_distance (node_cell n) G \<and> f_cost n = g_cost n + h_cost n \<and>
     (\<exists>p \<in> closed_set. cell_distance p (node_cell n) = 1 \<and> g_cost n = cell_distance S p + 1) \<and>
     int (length (parent_chain n)) = g_cost n + 1"

definition covered :: "cell \<Rightarrow> cell \<Rightarrow> cell set \<Rightarrow> cell set \<Rightarrow> bool" where
  "covered S G closed_set cells \<longleftrightarrow>
     (\<forall>c \<in> closed_set. \<forall>n. cell_distance c n = 1 \<and>
          cell_distance S n + cell_distance n G = cell_distance S G \<longrightarrow>
          n \<in> closed_set \<or> n \<in> cells)"

definition astar_inv :: "cell \<Rightarrow> cell \<Rightarrow> node list \<Rightarrow> cell set \<Rightarrow> bool" where
  "astar_inv S G open_set closed_set \<longleftrightarrow>
     heap_ok open_set \<and> S \<in> closed_set \<and> G \<notin> closed_set \<and>
     (\<forall>c \<in> closed_set. cell_distance S c + cell_distance c G = cell_distance S G) \<and>
     (\<forall>n \<in> set open_set. node_inv S G closed_set n) \<and>
     covered S G closed_set (node_cell ` set open_set)"

text \<open>While the goal is not closed, some open node has an f_cost of at most the distance.\<close>

lemma astar_inv_good_node:
  assumes "astar_inv S G open_set closed_set"
  shows "\<exists>n \<in> set open_set. f_cost n \<le> cell_distance S G"
proof -
  from assms have Sc: "S \<in> closed_set" and Gc: "G \<notin> closed_set"
    and R: "\<And>c. c \<in> closed_set \<Longrightarrow> cell_distance S c + cell_distance c G = cell_distance S G"
    and N: "\<And>n. n \<in> set open_set \<Longrightarrow> node_inv S G closed_set n"
    and C: "covered S G closed_set (node_cell ` set open_set)"
    unfolding astar_inv_def by blast+
  from ex_has_least_nat[of "\<lambda>c. c \<in> closed_set" S "\<lambda>c. nat (cell_distance c G)"] Sc
  obtain c where c: "c \<in> closed_set"
    and least: "\<And>y. y \<in> closed_set \<Longrightarrow> nat (cell_distance c G) \<le> nat (cell_distance y G)"
    by blast
  have least': "cell_distance c G \<le> cell_distance y G" if "y \<in> closed_set" for y
    using least[OF that] cell_distance_nonneg[of c G] cell_distance_nonneg[of y G] by linarith
  from c Gc have "c \<noteq> G" by auto
  from toward_goal[OF this R[OF c]] obtain n where
    n: "cell_distance c n = 1" "cell_distance n G = cell_distance c G - 1"
       "cell_distance S n + cell_distance n G = cell_distance S G" by blast
  have "n \<notin> closed_set" using least'[of n] n(2) by auto
  with C c n have "n \<in> node_cell ` set open_set" unfolding covered_def by blast
  then obtain v where v: "v \<in> set open_set" "node_cell v = n" by auto
  from N[OF v(1)] v(2) obtain p where
    h: "h_cost v = cell_distance n G" and f: "f_cost v = g_cost v + h_cost v"
    and p: "p \<in> closed_set" "g_cost v = cell_distance S p + 1"
    unfolding node_inv_def by auto
  from least'[OF p(1)] R[OF p(1)] n(2) p(2) h f have "f_cost v \<le> cell_distance S G"
    by linarith
  with v(1) show ?thesis by blast
qed

text \<open>The node popped first lies on a shortest path and has its true distance as g_cost.\<close>

lemma astar_inv_pop:
  assumes inv: "astar_inv S G open_set closed_set" and pop: "heappop open_set = Some (cur, open1)"
  shows "g_cost cur = cell_distance S (node_cell cur)"
    and "cell_distance S (node_cell cur) + cell_distance (node_cell cur) G = cell_distance S G"
    and "int (length (parent_chain cur)) = g_cost cur + 1"
proof -
  from inv have H: "heap_ok open_set"
    and N: "\<And>n. n \<in> set open_set \<Longrightarrow> node_inv S G closed_set n"
    unfolding astar_inv_def by blast+
  from astar_inv_good_node[OF inv] obtain v where v: "v \<in> set open_set" "f_cost v \<le> cell_distance S G"
    by blast
  from heap_ok_heappop(2)[OF H pop] v have le: "f_cost cur \<le> cell_distance S G" by force
  have "cur \<in> set open_set" using set_heappop[OF pop] by simp
  from N[OF this] obtain p where
    h: "h_cost cur = cell_distance (node_cell cur) G" and f: "f_cost cur = g_cost cur + h_cost cur"
    and p: "cell_distance p (node_cell cur) = 1" "g_cost cur = cell_distance S p + 1"
    and l: "int (length (parent_chain cur)) = g_cost cur + 1"
    unfolding node_inv_def by auto
  from cell_distance_triangle[of S "node_cell cur" p] p
  have g: "cell_distance S (node_cell cur) \<le> g_cost cur" by simp
  from cell_distance_triangle[of S G "node_cell cur"] g le h f
  show "g_cost cur = cell_distance S (node_cell cur)"
    and "cell_distance S (node_cell cur) + cell_distance (node_cell cur) G = cell_distance S G"
    by linarith+
  show "int (length (parent_chain cur)) = g_cost cur + 1" by (rule l)
qed

text \<open>Expanding such a node establishes the invariant for the next iteration.\<close>

lemma astar_inv_expand:
  assumes clear: "clear_between pf body S G" and goal: "node_cell goal_node = G"
    and H: "heap_ok open1"
    and S: "S \<in> closed_set \<or> node_cell cur = S"
    and G: "G \<notin> closed_set" "node_cell cur \<noteq> G"
    and R: "\<forall>c \<in> closed_set. cell_distance S c + cell_distance c G = cell_distance S G"
    and N: "\<forall>n \<in> set open1. node_inv S G closed_set n"
    and C: "covered S G closed_set (insert (node_cell cur) (node_cell ` set open1))"
    and cur: "g_cost cur = cell_distance S (node_cell cur)"
      "cell_distance S (node_cell cur) + cell_distance (node_cell cur) G = cell_distance S G"
      "int (length (parent_chain cur)) = g_cost cur + 1"
  shows "astar_inv S G
           (explore_neighbors pf goal_node body cur (insert (node_cell cur) closed_set) open1)
           (insert (node_cell cur) closed_set)"
proof -
  let ?closed1 = "insert (node_cell cur) closed_set"
  let ?open2 = "explore_neighbors pf goal_node body cur ?closed1 open1"
  have 1: "heap_ok ?open2" using H by (rule heap_ok_explore)
  have 2: "S \<in> ?closed1" using S by auto
  have 3: "G \<notin> ?closed1" using G by auto
  have 4: "\<forall>c \<in> ?closed1. cell_distance S c + cell_distance c G = cell_distance S G"
    using R cur(2) by auto
  have 5: "node_inv S G ?closed1 n" if "n \<in> set ?open2" for n
  proof -
    from explore_neighbors_nodes[OF that] consider "n \<in> set open1"
      | nb where "nb \<in> set (get_neighbors pf cur)" "n = pushed_node goal_node cur nb"
      by blast
    then show ?thesis
    proof cases
      case 1
      with N have "node_inv S G closed_set n" by blast
      then show ?thesis unfolding node_inv_def by blast
    next
      case 2
      from get_neighbors_adjacent[OF 2(1)]
      have adj: "cell_distance (node_cell cur) (node_cell nb) = 1"
        unfolding cell_distance_def node_cell_def by (simp add: abs_minus_commute)
      have c: "node_cell n = node_cell nb"
        by (simp add: 2(2) pushed_node_def node_cell_def)
      have "parent_chain n = n # parent_chain cur"
        by (simp add: 2(2) pushed_node_def)
      then have l: "int (length (parent_chain n)) = g_cost n + 1"
        using cur(3) by (simp add: 2(2) pushed_node_def)
      have "h_cost n = cell_distance (node_cell n) G" "f_cost n = g_cost n + h_cost n"
        "g_cost n = cell_distance S (node_cell cur) + 1"
        using cur(1) goal by (simp_all add: 2(2) pushed_node_def manhattan_cell_distance node_cell_def)
      with adj l c show ?thesis unfolding node_inv_def by auto
    qed
  qed
  have 6: "covered S G ?closed1 (node_cell ` set ?open2)"
    unfolding covered_def
  proof (intro ballI allI impI)
    fix c n assume c: "c \<in> ?closed1"
      and n: "cell_distance c n = 1 \<and> cell_distance S n + cell_distance n G = cell_distance S G"
    show "n \<in> ?closed1 \<or> n \<in> node_cell ` set ?open2"
    proof (cases "c \<in> closed_set")
      case True
      with C n have "n \<in> closed_set \<or> n \<in> insert (node_cell cur) (node_cell ` set open1)"
        unfolding covered_def by blast
      then show ?thesis
        using explore_neighbors_mono[of open1 pf goal_node body cur ?closed1] by auto
    next
      case False
      with c have cc: "c = node_cell cur" by simp
      from clear n have ig: "in_grid pf n"
        unfolding clear_between_def by (auto intro: between_in_grid)
      from neighbor_exists[OF ig] n cc obtain nb where
        nb: "nb \<in> set (get_neighbors pf cur)" "node_cell nb = n" by auto
      show ?thesis
      proof (cases "n \<in> ?closed1")
        case True
        then show ?thesis by simp
      next
        case nc: False
        with 2 have "n \<noteq> S" by auto
        with clear n have "is_safe_position pf (fst n) (snd n) body True"
          unfolding clear_between_def by blast
        then have "is_safe_position pf (node_x nb) (node_y nb) body True"
          using nb(2) by (auto simp: node_cell_def)
        from explore_neighbors_covers[OF nb(1) this, of ?closed1 goal_node open1] nc nb(2)
        show ?thesis by simp
      qed
    qed
  qed
  from 1 2 3 4 5 6 show ?thesis unfolding astar_inv_def by blast
qed

lemma astar_loop_optimal:
  "clear_between pf body S G \<Longrightarrow> node_cell goal_node = G \<Longrightarrow>
   astar_inv S G open_set closed_set \<Longrightarrow>
   \<exists>path. find_loop pf goal_node body open_set closed_set = Some path \<and>
      int (length path) = cell_distance S G + 1"
proof (induction pf goal_node body open_set closed_set rule: find_loop.induct)
  case (1 pf goal_node body open_set closed_set)
  note inv = "1.prems"(3)
  from astar_inv_good_node[OF inv] have "open_set \<noteq> []" by auto
  then obtain cur open1 where pop: "heappop open_set = Some (cur, open1)"
    by (cases "heappop open_set") auto
  note cur = astar_inv_pop[OF inv pop]
  show ?case
  proof (cases "node_eq cur goal_node")
    case True
    then have "node_cell cur = G" using "1.prems"(2) by (simp add: node_eq_cell)
    with cur have "int (length (reconstruct_path pf cur)) = cell_distance S G + 1"
      by (simp add: reconstruct_path_def)
    moreover have "find_loop pf goal_node body open_set closed_set = Some (reconstruct_path pf cur)"
      using pop True by (subst find_loop.simps) (simp add: Let_def)
    ultimately show ?thesis by simp
  next
    case False
    let ?closed1 = "insert (node_cell cur) closed_set"
    let ?open2 = "explore_neighbors pf goal_node body cur ?closed1 open1"
    have eq: "find_loop pf goal_node body open_set closed_set =
        find_loop pf goal_node body ?open2 ?closed1"
      using pop False by (subst find_loop.simps) (simp add: Let_def)
    from inv have H: "heap_ok open_set" and Sc: "S \<in> closed_set" and Gc: "G \<notin> closed_set"
      and R: "\<forall>c \<in> closed_set. cell_distance S c + cell_distance c G = cell_distance S G"
      and N: "\<forall>n \<in> set open_set. node_inv S G closed_set n"
      and C: "covered S G closed_set (node_cell ` set open_set)"
      unfolding astar_inv_def by blast+
    have so: "set open_set = insert cur (set open1)" using pop by (rule set_heappop)
    have "astar_inv S G ?open2 ?closed1"
    proof (rule astar_inv_expand[OF "1.prems"(1,2)])
      show "heap_ok open1" using heap_ok_heappop(1)[OF H pop] .
      show "S \<in> closed_set \<or> node_cell cur = S" using Sc by simp
      show "G \<notin> closed_set" by (rule Gc)
      show "node_cell cur \<noteq> G" using False "1.prems"(2) by (simp add: node_eq_cell)
      show "\<forall>c \<in> closed_set. cell_distance S c + cell_distance c G = cell_distance S G" by (rule R)
      show "\<forall>n \<in> set open1. node_inv S G closed_set n" using N so by simp
      show "covered S G closed_set (insert (node_cell cur) (node_cell ` set open1))"
        using C so by simp
    qed (rule cur)+
    from "1.IH"[OF pop refl refl False "1.prems"(1,2) this] show ?thesis unfolding eq .
  qed
qed

text \<open>The search from a start in the grid to a goal in the grid with nothing in between.\<close>

lemma find_path_optimal:
  assumes "clear_between pf body (pixel_to_grid pf (fst start_pos) (snd start_pos))
             (pixel_to_grid pf (fst goal_pos) (snd goal_pos))"
  shows "\<exists>path. find_path pf start_pos goal_pos body = Some path \<and>
      int (length path) = cell_distance (pixel_to_grid pf (fst start_pos) (snd start_pos))
             (pixel_to_grid pf (fst goal_pos) (snd goal_pos)) + 1"
proof -
  let ?S = "pixel_to_grid pf (fst start_pos) (snd start_pos)"
  let ?G = "pixel_to_grid pf (fst goal_pos) (snd goal_pos)"
  let ?s = "Node_init (fst ?S) (snd ?S)"
  let ?g = "Node_init (fst ?G) (snd ?G)"
  have fp: "find_path pf start_pos goal_pos body = find_loop pf ?g body [?s] {}"
    by (simp add: find_path_def Let_def)
  have pop: "heappop [?s] = Some (?s, [])" by (simp add: heappop_def)
  have sc: "node_cell ?s = ?S" and gc: "node_cell ?g = ?G" by (simp_all add: node_cell_def Node_init_def)
  show ?thesis
  proof (cases "node_eq ?s ?g")
    case True
    then have "?S = ?G" using sc gc by (simp add: node_eq_cell)
    moreover have "find_loop pf ?g body [?s] {} = Some (reconstruct_path pf ?s)"
      using pop True by (subst find_loop.simps) (simp add: Let_def)
    ultimately show ?thesis unfolding fp
      by (simp add: reconstruct_path_def Node_init_def)
  next
    case False
    let ?open2 = "explore_neighbors pf ?g body ?s (insert (node_cell ?s) {}) []"
    have eq: "find_loop pf ?g body [?s] {} = find_loop pf ?g body ?open2 (insert (node_cell ?s) {})"
      using pop False by (subst find_loop.simps) (simp add: Let_def)
    have "astar_inv ?S ?G ?open2 (insert (node_cell ?s) {})"
    proof (rule astar_inv_expand[OF assms gc])
      show "heap_ok []" by (simp add: heap_ok_def)
      show "?S \<in> {} \<or> node_cell ?s = ?S" using sc by simp
      show "node_cell ?s \<noteq> ?G" using False gc by (simp add: node_eq_cell)
      show "covered ?S ?G {} (insert (node_cell ?s) (node_cell ` set []))"
        by (simp add: covered_def)
      show "g_cost ?s = cell_distance ?S (node_cell ?s)" by (simp add: sc) (simp add: Node_init_def)
      show "cell_distance ?S (node_cell ?s) + cell_distance (node_cell ?s) ?G = cell_distance ?S ?G"
        by (simp add: sc)
      show "int (length (parent_chain ?s)) = g_cost ?s + 1" by (simp add: Node_init_def)
    qed simp_all
    from astar_loop_optimal[OF assms gc this] show ?thesis unfolding fp eq .
  qed
qed

lemma clear_between_empty:
  "in_grid pf S \<Longrightarrow> in_grid pf G \<Longrightarrow> clear_between pf [] S G"
  by (simp add: clear_between_def is_safe_position_def snake_grid_positions_def)

text \<open>The reference scenario: head at cell (10, 5), food at cell (15, 5), 72 x 48 cells.\<close>

lemma scenario_clear:
  assumes "\<forall>x \<in> {11..15}. is_safe_position (pathfinder (SnakeAI_init 720 480)) x 5 body True"
  shows "clear_between (pathfinder (SnakeAI_init 720 480)) body (10, 5) (15, 5)"
  unfolding clear_between_def
proof (intro conjI allI impI)
  show "in_grid (pathfinder (SnakeAI_init 720 480)) (10, 5)"
    "in_grid (pathfinder (SnakeAI_init 720 480)) (15, 5)"
    by (simp_all add: in_grid_def SnakeAI_init_def)
  fix c :: cell
  assume c: "cell_distance (10, 5) c + cell_distance c (15, 5) = cell_distance (10, 5) (15, 5)
      \<and> c \<noteq> (10, 5)"
  then have "snd c = 5 \<and> 10 \<le> fst c \<and> fst c \<le> 15"
    unfolding cell_distance_def by (simp only: fst_conv snd_conv) linarith
  moreover from this c have "fst c \<noteq> 10" by (auto simp: prod_eq_iff)
  ultimately have "fst c \<in> {11..15}" "snd c = 5" by auto
  with assms show "is_safe_position (pathfinder (SnakeAI_init 720 480)) (fst c) (snd c) body True"
    by auto
qed

lemma scenario_first_move:
  assumes "\<forall>x \<in> {11..15}. is_safe_position (pathfinder (SnakeAI_init 720 480)) x 5 body True"
  shows "(\<exists>path. find_path (pathfinder (SnakeAI_init 720 480)) (100, 50) (150, 50) body = Some path \<and>
            length path = 6) \<and>
         get_next_move (SnakeAI_init 720 480) (100, 50) (150, 50) body = RIGHT"
proof -
  let ?pf = "pathfinder (SnakeAI_init 720 480)"
  have S: "pixel_to_grid ?pf (fst (100, 50)) (snd (100, 50)) = (10, 5)"
    and G: "pixel_to_grid ?pf (fst (150, 50)) (snd (150, 50)) = (15, 5)"
    and cs: "cell_size ?pf = 10"
    by (simp_all add: pixel_to_grid_def SnakeAI_init_def)
  from find_path_optimal[of ?pf body "(100, 50)" "(150, 50)"] scenario_clear[OF assms]
  obtain path where f: "find_path ?pf (100, 50) (150, 50) body = Some path"
    and l: "int (length path) = cell_distance (10, 5) (15, 5) + 1"
    unfolding S G by blast
  from l have len: "length path = 6" by (simp add: cell_distance_def)
  from find_path_Some[OF f] obtain n where
    ok: "node_ok ?pf body (Node_init 10 5) n" and g: "node_cell n = (15, 5)"
    and p: "path = reconstruct_path ?pf n"
    unfolding S G by auto
  note r = reconstruct_path_props[OF ok p]
  have h0: "path ! 0 = (100, 50)"
    using r(1,2) by (simp add: hd_conv_nth grid_to_pixel_def cs Node_init_def)
  have h5: "path ! 5 = (150, 50)"
    using r(1,3) g len by (simp add: last_conv_nth grid_to_pixel_def cs node_cell_def)
  have step: "\<bar>fst (path ! Suc i) - fst (path ! i)\<bar> \<le> 10" if "Suc i < length path" for i
  proof -
    from successively_nth[OF r(5) that] obtain a b where
      "path ! i = grid_to_pixel ?pf (node_x a) (node_y a)"
      "path ! Suc i = grid_to_pixel ?pf (node_x b) (node_y b)"
      "\<bar>node_x a - node_x b\<bar> + \<bar>node_y a - node_y b\<bar> = 1" by blast
    then show ?thesis by (simp add: grid_to_pixel_def cs)
  qed
  from step[of 0] step[of 1] step[of 2] step[of 3] step[of 4] len h0 h5
  have "fst (path ! 1) = 110" by (simp add: eval_nat_numeral; linarith)
  then have "get_next_direction (100, 50) (path ! 1) = RIGHT"
    by (simp add: get_next_direction_def)
  then have "get_next_move (SnakeAI_init 720 480) (100, 50) (150, 50) body = RIGHT"
    using f len r(1) by (simp add: get_next_move_def usable_path_def Let_def)
  with f len show ?thesis by blast
qed

subsection \<open>The first step of the move policy\<close>

text \<open>
  The first step of a returned path when the start is aligned to a grid of cell size 10:
  the path starts at the start position and its second position is one of the four
  positions 10 pixels away.
\<close>

lemma find_path_first_step:
  assumes cs: "cell_size pf = 10" and al: "10 dvd fst head" "10 dvd snd head"
    and f: "find_path pf head goal_pos body = Some p" and l: "2 \<le> length p"
  shows "p ! 0 = head"
    and "p ! 1 = (fst head + 10, snd head) \<or> p ! 1 = (fst head - 10, snd head) \<or>
         p ! 1 = (fst head, snd head + 10) \<or> p ! 1 = (fst head, snd head - 10)"
proof -
  from find_path_Some[OF f] obtain n where
    ok: "node_ok pf body
               (Node_init (fst (pixel_to_grid pf (fst head) (snd head)))
                          (snd (pixel_to_grid pf (fst head) (snd head)))) n"
    and p: "p = reconstruct_path pf n" by blast
  note r = reconstruct_path_props[OF ok p]
  have "hd p = head"
    unfolding r(2) using al
    by (simp add: grid_to_pixel_def pixel_to_grid_def cs Node_init_def prod_eq_iff)
  with r(1) show p0: "p ! 0 = head" by (simp add: hd_conv_nth)
  from l have "Suc 0 < length p" by simp
  from successively_nth[OF r(5) this] obtain a b where
    a: "p ! 0 = grid_to_pixel pf (node_x a) (node_y a)"
    and b: "p ! Suc 0 = grid_to_pixel pf (node_x b) (node_y b)"
    and ab: "\<bar>node_x a - node_x b\<bar> + \<bar>node_y a - node_y b\<bar> = 1" by blast
  from a p0 have h: "fst head = node_x a * 10" "snd head = node_y a * 10"
    by (simp_all add: grid_to_pixel_def cs)
  from ab consider "node_x b = node_x a + 1" "node_y b = node_y a"
    | "node_x b = node_x a - 1" "node_y b = node_y a"
    | "node_x b = node_x a" "node_y b = node_y a + 1"
    | "node_x b = node_x a" "node_y b = node_y a - 1" by linarith
  then show "p ! 1 = (fst head + 10, snd head) \<or> p ! 1 = (fst head - 10, snd head) \<or>
         p ! 1 = (fst head, snd head + 10) \<or> p ! 1 = (fst head, snd head - 10)"
    by cases (simp_all add: b h grid_to_pixel_def cs)
qed

lemma get_next_direction_step:
  assumes "q = (fst head + 10, snd head) \<or> q = (fst head - 10, snd head) \<or>
         q = (fst head, snd head + 10) \<or> q = (fst head, snd head - 10)"
  shows "step_pos head (get_next_direction head q) = q"
  using assms by (auto simp: get_next_direction_def step_pos_def)

lemma get_next_direction_delta:
  "get_next_direction head q =
     (if fst head < fst q then RIGHT
      else if fst q < fst head then LEFT
      else if snd head < snd q then DOWN
      else if snd q < snd head then UP
      else RIGHT)"
  by (simp add: get_next_direction_def)

lemma move_is_safe_eq:
  "move_is_safe ai head body d \<longleftrightarrow>
     in_grid (pathfinder ai)
       (pixel_to_grid (pathfinder ai) (fst (step_pos head d)) (snd (step_pos head d))) \<and>
     is_safe_position (pathfinder ai)
       (fst (pixel_to_grid (pathfinder ai) (fst (step_pos head d)) (snd (step_pos head d))))
       (snd (pixel_to_grid (pathfinder ai) (fst (step_pos head d)) (snd (step_pos head d))))
       body True"
  by (auto simp: move_is_safe_def in_grid_def Let_def)

lemma SnakeAI_cell_size: "cell_size (pathfinder (SnakeAI_init w h)) = 10"
  by (simp add: SnakeAI_init_def)

section \<open>The claims\<close>

text \<open>
  C9. The conversions of the grid mapper are mutually inverse on a constructed pathfinder:
  every cell survives grid_to_pixel followed by pixel_to_grid, and every pixel position
  whose two coordinates are multiples of the cell size survives pixel_to_grid followed by
  grid_to_pixel (in bounds or not).
\<close>

theorem C9_grid_pixel_roundtrip:
  "AStarPathfinder_init w h cs = Some pf \<Longrightarrow>
   pixel_to_grid pf (fst (grid_to_pixel pf cx cy)) (snd (grid_to_pixel pf cx cy)) = (cx, cy) \<and>
   (cell_size pf dvd px \<and> cell_size pf dvd py \<longrightarrow>
      grid_to_pixel pf (fst (pixel_to_grid pf px py)) (snd (pixel_to_grid pf px py)) = (px, py))"
  using init_cell_size[of w h cs pf] by (auto simp: pixel_to_grid_def grid_to_pixel_def)

theorem C9_grid_pixel_roundtrip_witness:
  "AStarPathfinder_init 720 480 10 = Some \<lparr>cell_size = 10, grid_cols = 72, grid_rows = 48\<rparr> \<and>
   pixel_to_grid \<lparr>cell_size = 10, grid_cols = 72, grid_rows = 48\<rparr>
     (fst (grid_to_pixel \<lparr>cell_size = 10, grid_cols = 72, grid_rows = 48\<rparr> 10 5))
     (snd (grid_to_pixel \<lparr>cell_size = 10, grid_cols = 72, grid_rows = 48\<rparr> 10 5)) = (10, 5) \<and>
   cell_size \<lparr>cell_size = 10, grid_cols = 72, grid_rows = 48\<rparr> dvd 100 \<and>
   cell_size \<lparr>cell_size = 10, grid_cols = 72, grid_rows = 48\<rparr> dvd 50 \<and>
   grid_to_pixel \<lparr>cell_size = 10, grid_cols = 72, grid_rows = 48\<rparr>
     (fst (pixel_to_grid \<lparr>cell_size = 10, grid_cols = 72, grid_rows = 48\<rparr> 100 50))
     (snd (pixel_to_grid \<lparr>cell_size = 10, grid_cols = 72, grid_rows = 48\<rparr> 100 50)) = (100, 50)"
proof -
  have i: "AStarPathfinder_init 720 480 10 = Some \<lparr>cell_size = 10, grid_cols = 72, grid_rows = 48\<rparr>"
    by (simp add: AStarPathfinder_init_def)
  have d: "cell_size \<lparr>cell_size = 10, grid_cols = 72, grid_rows = 48\<rparr> dvd 100 \<and>
           cell_size \<lparr>cell_size = 10, grid_cols = 72, grid_rows = 48\<rparr> dvd 50"
    by simp
  from C9_grid_pixel_roundtrip[OF i, of 10 5 100 50] i d
  show ?thesis by blast
qed

text \<open>
  C8. In update_direction (snake_ai.py) and in the main loop of Snake.py a request that
  is the exact opposite of the current direction is ignored and the direction is kept;
  any other request becomes the direction. So the direction after a tick is never the
  opposite of the direction before it.
\<close>

theorem C8_reversal_ignored:
  "direction (update_direction g) =
     (if change_to (update_direction g) = opposite (direction g) then direction g
      else change_to (update_direction g)) \<and>
   direction (fst (tick draw g)) \<noteq> opposite (direction g) \<and>
   main_loop_direction c d = (if c = opposite d then d else c) \<and>
   main_loop_direction c d \<noteq> opposite d"
proof -
  have "opposite x \<noteq> x" "x \<noteq> opposite x" for x by (cases x; simp)+
  then show ?thesis
    by (simp add: direction_tick direction_update validate_direction_eq main_loop_direction_eq)
qed

theorem C8_reversal_ignored_witness:
  "direction (update_direction ((SnakeGame_init (15, 5))\<lparr>change_to := LEFT\<rparr>)) = RIGHT \<and>
   direction (fst (tick (1, 1) ((SnakeGame_init (15, 5))\<lparr>change_to := LEFT\<rparr>))) \<noteq> LEFT \<and>
   main_loop_direction LEFT RIGHT = RIGHT"
  using C8_reversal_ignored[of "(SnakeGame_init (15, 5))\<lparr>change_to := LEFT\<rparr>" "(1, 1)" LEFT RIGHT]
  by (simp add: SnakeGame_init_def reset_game_def update_direction_def)

text \<open>
  C6, as stated, fails: the cell (0, 0) is in bounds and is never a spawn result, since
  both draws start at 1.
\<close>

theorem C6_counterexample:
  "in_grid (pathfinder (SnakeAI_init 720 480))
     (pixel_to_grid (pathfinder (SnakeAI_init 720 480)) 0 0) \<and>
   (0, 0) \<notin> fruit_spawn_results 720 480"
  by (auto simp: in_grid_def pixel_to_grid_def SnakeAI_init_def fruit_spawn_results_def
      fruit_draws_def randrange_def new_fruit_position_def)

text \<open>
  C6, amended. In the 720 x 480 window the spawn results are exactly the cells of columns
  1..71 and rows 1..47; for every window every spawn result is in bounds; and when the
  fruit is eaten the new fruit is the drawn cell whatever the body is, also when the
  drawn cell is a cell of the snake.
\<close>

theorem C6_fruit_spawn:
  "((px, py) \<in> fruit_spawn_results 720 480 \<longleftrightarrow>
      (\<exists>c r. px = c * 10 \<and> py = r * 10 \<and> 1 \<le> c \<and> c \<le> 71 \<and> 1 \<le> r \<and> r \<le> 47)) \<and>
   ((px, py) \<in> fruit_spawn_results wx wy \<longrightarrow>
      in_grid (pathfinder (SnakeAI_init wx wy)) (pixel_to_grid (pathfinder (SnakeAI_init wx wy)) px py)) \<and>
   (snake_position g = fruit_position g \<and> draw \<in> fruit_draws (window_x g) (window_y g) \<longrightarrow>
      fruit_position (check_food_collision draw g) = new_fruit_position draw \<and>
      fruit_position (check_food_collision draw g) \<in> fruit_spawn_results (window_x g) (window_y g) \<and>
      (new_fruit_position draw \<in> set (snake_body g) \<longrightarrow>
         fruit_position (check_food_collision draw g) \<in> set (snake_body (check_food_collision draw g))))"
proof (intro conjI impI)
  show "((px, py) \<in> fruit_spawn_results 720 480) =
    (\<exists>c r. px = c * 10 \<and> py = r * 10 \<and> 1 \<le> c \<and> c \<le> 71 \<and> 1 \<le> r \<and> r \<le> 47)"
    unfolding fruit_spawn_results_iff by auto
next
  assume "(px, py) \<in> fruit_spawn_results wx wy"
  then show "in_grid (pathfinder (SnakeAI_init wx wy))
     (pixel_to_grid (pathfinder (SnakeAI_init wx wy)) px py)"
    unfolding fruit_spawn_results_iff
    by (auto simp: in_grid_def pixel_to_grid_def SnakeAI_init_def)
next
  assume a: "snake_position g = fruit_position g \<and> draw \<in> fruit_draws (window_x g) (window_y g)"
  then show f: "fruit_position (check_food_collision draw g) = new_fruit_position draw"
    by (simp add: check_food_collision_def Let_def)
  from a show "fruit_position (check_food_collision draw g)
      \<in> fruit_spawn_results (window_x g) (window_y g)"
    unfolding f by (simp add: fruit_spawn_results_def)
  assume "new_fruit_position draw \<in> set (snake_body g)"
  with a show "fruit_position (check_food_collision draw g)
      \<in> set (snake_body (check_food_collision draw g))"
    unfolding f by (simp add: check_food_collision_def Let_def)
qed

theorem C6_fruit_spawn_witness:
  "(710, 470) \<in> fruit_spawn_results 720 480 \<and>
   in_grid (pathfinder (SnakeAI_init 720 480))
     (pixel_to_grid (pathfinder (SnakeAI_init 720 480)) 710 470) \<and>
   snake_position (SnakeGame_init (10, 5)) = fruit_position (SnakeGame_init (10, 5)) \<and>
   (9, 5) \<in> fruit_draws (window_x (SnakeGame_init (10, 5))) (window_y (SnakeGame_init (10, 5))) \<and>
   new_fruit_position (9, 5) \<in> set (snake_body (SnakeGame_init (10, 5))) \<and>
   fruit_position (check_food_collision (9, 5) (SnakeGame_init (10, 5))) = new_fruit_position (9, 5) \<and>
   fruit_position (check_food_collision (9, 5) (SnakeGame_init (10, 5)))
     \<in> set (snake_body (check_food_collision (9, 5) (SnakeGame_init (10, 5))))"
proof -
  have a: "(710, 470) \<in> fruit_spawn_results 720 480"
    by (simp add: fruit_spawn_results_iff)
  have b: "snake_position (SnakeGame_init (10, 5)) = fruit_position (SnakeGame_init (10, 5)) \<and>
      (9, 5) \<in> fruit_draws (window_x (SnakeGame_init (10, 5))) (window_y (SnakeGame_init (10, 5)))"
    by (simp add: SnakeGame_init_def reset_game_def new_fruit_position_def fruit_draws_def
        randrange_def)
  have c: "new_fruit_position (9, 5) \<in> set (snake_body (SnakeGame_init (10, 5)))"
    by (simp add: SnakeGame_init_def reset_game_def new_fruit_position_def
        initial_snake_body_def)
  from C6_fruit_spawn[of 710 470 720 480 "SnakeGame_init (10, 5)" "(9, 5)"] a b c
  show ?thesis by blast
qed

text \<open>
  C5. The move policy of a SnakeAI applies its fallbacks in order. When the food search
  returns a path of at least two cells, the move is the direction from the head to the
  path's second position (horizontal difference first); when the head is aligned to the
  grid, the path starts at the head and the head moved one step in that direction is
  the path's second position. Otherwise, when the body has at least two segments and
  the search from the head to the last segment over the body without it returns a path
  of at least two cells, the same holds for that path. Otherwise the move is the first
  of UP, DOWN, LEFT, RIGHT whose cell is in the grid and safe, and RIGHT when there is
  none.
\<close>

theorem C5_move_policy_order:
  "(\<forall>p. find_path (pathfinder (SnakeAI_init w h)) head food_pos body = Some p \<and> 2 \<le> length p \<longrightarrow>
        get_next_move (SnakeAI_init w h) head food_pos body =
          (if fst head < fst (p ! 1) then RIGHT
           else if fst (p ! 1) < fst head then LEFT
           else if snd head < snd (p ! 1) then DOWN
           else if snd (p ! 1) < snd head then UP
           else RIGHT) \<and>
        (10 dvd fst head \<and> 10 dvd snd head \<longrightarrow>
           p ! 0 = head \<and>
           step_pos head (get_next_move (SnakeAI_init w h) head food_pos body) = p ! 1)) \<and>
   ((\<forall>p. find_path (pathfinder (SnakeAI_init w h)) head food_pos body = Some p \<longrightarrow> length p < 2) \<longrightarrow>
      (\<forall>q. 2 \<le> length body \<and>
           find_path (pathfinder (SnakeAI_init w h)) head (last body) (butlast body) = Some q \<and>
           2 \<le> length q \<longrightarrow>
        get_next_move (SnakeAI_init w h) head food_pos body =
          (if fst head < fst (q ! 1) then RIGHT
           else if fst (q ! 1) < fst head then LEFT
           else if snd head < snd (q ! 1) then DOWN
           else if snd (q ! 1) < snd head then UP
           else RIGHT) \<and>
        (10 dvd fst head \<and> 10 dvd snd head \<longrightarrow>
           q ! 0 = head \<and>
           step_pos head (get_next_move (SnakeAI_init w h) head food_pos body) = q ! 1))) \<and>
   ((\<forall>p. find_path (pathfinder (SnakeAI_init w h)) head food_pos body = Some p \<longrightarrow> length p < 2) \<and>
    (length body < 2 \<or>
     (\<forall>q. find_path (pathfinder (SnakeAI_init w h)) head (last body) (butlast body) = Some q \<longrightarrow>
          length q < 2)) \<longrightarrow>
      get_next_move (SnakeAI_init w h) head food_pos body =
        (case find (\<lambda>d. in_grid (pathfinder (SnakeAI_init w h))
                        (pixel_to_grid (pathfinder (SnakeAI_init w h))
                           (fst (step_pos head d)) (snd (step_pos head d))) \<and>
                      is_safe_position (pathfinder (SnakeAI_init w h))
                        (fst (pixel_to_grid (pathfinder (SnakeAI_init w h))
                           (fst (step_pos head d)) (snd (step_pos head d))))
                        (snd (pixel_to_grid (pathfinder (SnakeAI_init w h))
                           (fst (step_pos head d)) (snd (step_pos head d))))
                        body True)
           [UP, DOWN, LEFT, RIGHT] of
           Some d \<Rightarrow> d | None \<Rightarrow> RIGHT))"
proof (intro conjI allI impI)
  let ?ai = "SnakeAI_init w h"
  let ?pf = "pathfinder ?ai"
  note cs = SnakeAI_cell_size[of w h]
  {
    fix p
    assume a: "find_path ?pf head food_pos body = Some p \<and> 2 \<le> length p"
    then have m: "get_next_move ?ai head food_pos body = get_next_direction head (p ! 1)"
      by (auto simp: get_next_move_def usable_path_def Let_def)
    show "get_next_move ?ai head food_pos body =
          (if fst head < fst (p ! 1) then RIGHT
           else if fst (p ! 1) < fst head then LEFT
           else if snd head < snd (p ! 1) then DOWN
           else if snd (p ! 1) < snd head then UP
           else RIGHT)"
      unfolding m by (rule get_next_direction_delta)
    assume al: "10 dvd fst head \<and> 10 dvd snd head"
    from a al show "p ! 0 = head"
      using find_path_first_step(1)[OF cs, of head food_pos body p] by blast
    from a al have "p ! 1 = (fst head + 10, snd head) \<or> p ! 1 = (fst head - 10, snd head) \<or>
         p ! 1 = (fst head, snd head + 10) \<or> p ! 1 = (fst head, snd head - 10)"
      using find_path_first_step(2)[OF cs, of head food_pos body p] by blast
    then show "step_pos head (get_next_move ?ai head food_pos body) = p ! 1"
      unfolding m by (rule get_next_direction_step)
  }
  assume np: "\<forall>p. find_path ?pf head food_pos body = Some p \<longrightarrow> length p < 2"
  then have nu: "\<not> usable_path (find_path ?pf head food_pos body)"
    by (auto simp: usable_path_def split: option.splits)
  {
    fix q
    assume a: "2 \<le> length body \<and> find_path ?pf head (last body) (butlast body) = Some q \<and>
      2 \<le> length q"
    then have t: "find_safe_path_to_tail ?pf head body = Some q"
      by (simp add: find_safe_path_to_tail_def Let_def)
    with a nu have m: "get_next_move ?ai head food_pos body = get_next_direction head (q ! 1)"
      by (auto simp: get_next_move_def usable_path_def Let_def)
    show "get_next_move ?ai head food_pos body =
          (if fst head < fst (q ! 1) then RIGHT
           else if fst (q ! 1) < fst head then LEFT
           else if snd head < snd (q ! 1) then DOWN
           else if snd (q ! 1) < snd head then UP
           else RIGHT)"
      unfolding m by (rule get_next_direction_delta)
    assume al: "10 dvd fst head \<and> 10 dvd snd head"
    from a al show "q ! 0 = head"
      using find_path_first_step(1)[OF cs, of head "last body" "butlast body" q] by blast
    from a al have "q ! 1 = (fst head + 10, snd head) \<or> q ! 1 = (fst head - 10, snd head) \<or>
         q ! 1 = (fst head, snd head + 10) \<or> q ! 1 = (fst head, snd head - 10)"
      using find_path_first_step(2)[OF cs, of head "last body" "butlast body" q] by blast
    then show "step_pos head (get_next_move ?ai head food_pos body) = q ! 1"
      unfolding m by (rule get_next_direction_step)
  }
next
  let ?ai = "SnakeAI_init w h"
  let ?pf = "pathfinder ?ai"
  assume a: "(\<forall>p. find_path ?pf head food_pos body = Some p \<longrightarrow> length p < 2) \<and>
    (length body < 2 \<or>
     (\<forall>q. find_path ?pf head (last body) (butlast body) = Some q \<longrightarrow> length q < 2))"
  then have "\<not> usable_path (find_path ?pf head food_pos body)"
    by (auto simp: usable_path_def split: option.splits)
  moreover from a have "\<not> usable_path (find_safe_path_to_tail ?pf head body)"
    by (auto simp: usable_path_def find_safe_path_to_tail_def Let_def split: option.splits)
  ultimately have "get_next_move ?ai head food_pos body =
      (case find (move_is_safe ?ai head body) [UP, DOWN, LEFT, RIGHT] of
           Some d \<Rightarrow> d | None \<Rightarrow> RIGHT)"
    by (simp add: get_next_move_def Let_def make_safe_move_def safe_move_loop_find)
  then show "get_next_move ?ai head food_pos body =
        (case find (\<lambda>d. in_grid ?pf
                        (pixel_to_grid ?pf (fst (step_pos head d)) (snd (step_pos head d))) \<and>
                      is_safe_position ?pf
                        (fst (pixel_to_grid ?pf (fst (step_pos head d)) (snd (step_pos head d))))
                        (snd (pixel_to_grid ?pf (fst (step_pos head d)) (snd (step_pos head d))))
                        body True)
           [UP, DOWN, LEFT, RIGHT] of
           Some d \<Rightarrow> d | None \<Rightarrow> RIGHT)"
    unfolding move_is_safe_eq .
qed

theorem C5_move_policy_order_witness:
  "find_path (pathfinder (SnakeAI_init 720 480)) (100, 50) (150, 50) initial_snake_body
     = Some [(100, 50), (110, 50), (120, 50), (130, 50), (140, 50), (150, 50)] \<and>
   get_next_move (SnakeAI_init 720 480) (100, 50) (150, 50) initial_snake_body = RIGHT \<and>
   step_pos (100, 50) (get_next_move (SnakeAI_init 720 480) (100, 50) (150, 50) initial_snake_body)
     = (110, 50) \<and>
   find_safe_path_to_tail (pathfinder (SnakeAI_init 720 480)) (100, 50) initial_snake_body
     = Some [(100, 50), (100, 40), (90, 40), (80, 40), (70, 40), (70, 50)] \<and>
   make_safe_move (SnakeAI_init 720 480) (100, 50) initial_snake_body = UP \<and>
   find_path (pathfinder (SnakeAI_init 40 40)) (30, 10) (20, 10)
       [(30, 10), (20, 10), (10, 10), (10, 20), (10, 30)] = None \<and>
   find_path (pathfinder (SnakeAI_init 40 40)) (30, 10)
       (last [(30, 10), (20, 10), (10, 10), (10, 20), (10, 30)])
       (butlast [(30, 10), (20, 10), (10, 10), (10, 20), (10, 30)])
     = Some [(30, 10), (30, 20), (20, 20), (10, 20), (10, 30)] \<and>
   get_next_move (SnakeAI_init 40 40) (30, 10) (20, 10)
       [(30, 10), (20, 10), (10, 10), (10, 20), (10, 30)] = DOWN \<and>
   step_pos (30, 10) (get_next_move (SnakeAI_init 40 40) (30, 10) (20, 10)
       [(30, 10), (20, 10), (10, 10), (10, 20), (10, 30)]) = (30, 20) \<and>
   make_safe_move (SnakeAI_init 40 40) (30, 10)
       [(30, 10), (20, 10), (10, 10), (10, 20), (10, 30)] = UP \<and>
   find_path (pathfinder (SnakeAI_init 30 30)) (0, 0) (50, 50) [(0, 0)] = None \<and>
   get_next_move (SnakeAI_init 30 30) (0, 0) (50, 50) [(0, 0)] = DOWN \<and>
   find_path (pathfinder (SnakeAI_init 10 10)) (0, 0) (50, 50) [(0, 0)] = None \<and>
   get_next_move (SnakeAI_init 10 10) (0, 0) (50, 50) [(0, 0)] = RIGHT"
proof -
  have a: "find_path (pathfinder (SnakeAI_init 720 480)) (100, 50) (150, 50) initial_snake_body
      = Some [(100, 50), (110, 50), (120, 50), (130, 50), (140, 50), (150, 50)]"
    by code_simp
  have a2: "find_safe_path_to_tail (pathfinder (SnakeAI_init 720 480)) (100, 50) initial_snake_body
     = Some [(100, 50), (100, 40), (90, 40), (80, 40), (70, 40), (70, 50)]"
    by code_simp
  have a3: "make_safe_move (SnakeAI_init 720 480) (100, 50) initial_snake_body = UP"
    by code_simp
  have b1: "find_path (pathfinder (SnakeAI_init 40 40)) (30, 10) (20, 10)
       [(30, 10), (20, 10), (10, 10), (10, 20), (10, 30)] = None"
    by code_simp
  have b2: "find_path (pathfinder (SnakeAI_init 40 40)) (30, 10)
       (last [(30, 10), (20, 10), (10, 10), (10, 20), (10, 30)])
       (butlast [(30, 10), (20, 10), (10, 10), (10, 20), (10, 30)])
     = Some [(30, 10), (30, 20), (20, 20), (10, 20), (10, 30)]"
    by code_simp
  have b3: "make_safe_move (SnakeAI_init 40 40) (30, 10)
       [(30, 10), (20, 10), (10, 10), (10, 20), (10, 30)] = UP"
    by code_simp
  have c1: "find_path (pathfinder (SnakeAI_init 30 30)) (0, 0) (50, 50) [(0, 0)] = None"
    by code_simp
  have d1: "find_path (pathfinder (SnakeAI_init 10 10)) (0, 0) (50, 50) [(0, 0)] = None"
    by code_simp
  have r1a: "get_next_move (SnakeAI_init 720 480) (100, 50) (150, 50) initial_snake_body = RIGHT"
    and r1b: "step_pos (100, 50) (get_next_move (SnakeAI_init 720 480) (100, 50) (150, 50)
        initial_snake_body) = (110, 50)"
  proof -
    have pre: "find_path (pathfinder (SnakeAI_init 720 480)) (100, 50) (150, 50)
        initial_snake_body
        = Some [(100, 50), (110, 50), (120, 50), (130, 50), (140, 50), (150, 50)] \<and>
      2 \<le> length [(100, 50), (110, 50), (120, 50), (130, 50), (140, 50), (150 :: int, 50 :: int)]"
      using a by simp
    note u = C5_move_policy_order[of 720 480 "(100, 50)" "(150, 50)" initial_snake_body,
        THEN conjunct1, THEN spec, THEN mp, OF pre]
    show "get_next_move (SnakeAI_init 720 480) (100, 50) (150, 50) initial_snake_body = RIGHT"
      using u[THEN conjunct1] by simp
    show "step_pos (100, 50) (get_next_move (SnakeAI_init 720 480) (100, 50) (150, 50)
        initial_snake_body) = (110, 50)"
      using u[THEN conjunct2] by simp
  qed
  have r2a: "get_next_move (SnakeAI_init 40 40) (30, 10) (20, 10)
       [(30, 10), (20, 10), (10, 10), (10, 20), (10, 30)] = DOWN"
    and r2b: "step_pos (30, 10) (get_next_move (SnakeAI_init 40 40) (30, 10) (20, 10)
       [(30, 10), (20, 10), (10, 10), (10, 20), (10, 30)]) = (30, 20)"
  proof -
    have n: "\<forall>p. find_path (pathfinder (SnakeAI_init 40 40)) (30, 10) (20, 10)
       [(30, 10), (20, 10), (10, 10), (10, 20), (10, 30)] = Some p \<longrightarrow> length p < 2"
      by (simp add: b1)
    have l: "2 \<le> length [(30, 10), (20, 10), (10, 10), (10, 20), (10 :: int, 30 :: int)] \<and>
      find_path (pathfinder (SnakeAI_init 40 40)) (30, 10)
       (last [(30, 10), (20, 10), (10, 10), (10, 20), (10, 30)])
       (butlast [(30, 10), (20, 10), (10, 10), (10, 20), (10, 30)])
       = Some [(30, 10), (30, 20), (20, 20), (10, 20), (10, 30)] \<and>
      2 \<le> length [(30, 10), (30, 20), (20, 20), (10, 20), (10 :: int, 30 :: int)]"
      using b2 by simp
    note u = C5_move_policy_order[of 40 40 "(30, 10)" "(20, 10)"
        "[(30, 10), (20, 10), (10, 10), (10, 20), (10, 30)]",
        THEN conjunct2, THEN conjunct1, THEN mp, OF n, THEN spec, THEN mp, OF l]
    show "get_next_move (SnakeAI_init 40 40) (30, 10) (20, 10)
       [(30, 10), (20, 10), (10, 10), (10, 20), (10, 30)] = DOWN"
      using u[THEN conjunct1] by simp
    show "step_pos (30, 10) (get_next_move (SnakeAI_init 40 40) (30, 10) (20, 10)
       [(30, 10), (20, 10), (10, 10), (10, 20), (10, 30)]) = (30, 20)"
      using u[THEN conjunct2] by simp
  qed
  have r3: "get_next_move (SnakeAI_init 30 30) (0, 0) (50, 50) [(0, 0)] = DOWN"
    using C5_move_policy_order[of 30 30 "(0, 0)" "(50, 50)" "[(0, 0)]",
        THEN conjunct2, THEN conjunct2] c1
    by (simp add: in_grid_def pixel_to_grid_def step_pos_def is_safe_position_def
        snake_grid_positions_def SnakeAI_init_def)
  have r4: "get_next_move (SnakeAI_init 10 10) (0, 0) (50, 50) [(0, 0)] = RIGHT"
    using C5_move_policy_order[of 10 10 "(0, 0)" "(50, 50)" "[(0, 0)]",
        THEN conjunct2, THEN conjunct2] d1
    by (simp add: in_grid_def pixel_to_grid_def step_pos_def is_safe_position_def
        snake_grid_positions_def SnakeAI_init_def)
  show ?thesis
    by (intro conjI) (rule a r1a r1b a2 a3 b1 b2 r2a r2b b3 c1 r3 d1 r4)+
qed

text \<open>
  C2, at the body [(0, 20), (0, 10), (10, 10), (10, 0), (0, 0)] in the 720 x 480 window
  (the tail in the corner cell (0, 0), its only other neighbor (0, 1) a body cell): the
  tail search hands find_path the body without its tail, and is_safe_position drops the
  last segment of that list again. The obstacle list is [(0, 2), (0, 1), (1, 1)], the
  cell (1, 0) of the segment before the tail counts as safe, and the returned path runs
  through it.
\<close>

theorem C2_tail_search_obstacles:
  "find_safe_path_to_tail (pathfinder (SnakeAI_init 720 480)) (0, 20)
       [(0, 20), (0, 10), (10, 10), (10, 0), (0, 0)]
     = find_path (pathfinder (SnakeAI_init 720 480)) (0, 20) (0, 0)
         [(0, 20), (0, 10), (10, 10), (10, 0)] \<and>
   snake_grid_positions (pathfinder (SnakeAI_init 720 480))
       [(0, 20), (0, 10), (10, 10), (10, 0)] True
     = [(0, 2), (0, 1), (1, 1)] \<and>
   is_safe_position (pathfinder (SnakeAI_init 720 480)) 1 0
       [(0, 20), (0, 10), (10, 10), (10, 0)] True \<and>
   find_safe_path_to_tail (pathfinder (SnakeAI_init 720 480)) (0, 20)
       [(0, 20), (0, 10), (10, 10), (10, 0), (0, 0)]
     = Some [(0, 20), (10, 20), (20, 20), (20, 10), (20, 0), (10, 0), (0, 0)]"
  by code_simp

text \<open>
  C1, as stated, fails: on a 3 x 3 grid with body [(0, 0), (10, 0), (20, 0)] the goal
  cell (1, 0) is a neighbor of the start, lies in the obstacle list and is skipped; the
  search returns None.
\<close>

theorem C1_counterexample:
  "Node_init 1 0 \<in> set (get_neighbors (pathfinder (SnakeAI_init 30 30)) (Node_init 0 0)) \<and>
   node_eq (Node_init 1 0) (Node_init 1 0) \<and>
   \<not> is_safe_position (pathfinder (SnakeAI_init 30 30)) 1 0 [(0, 0), (10, 0), (20, 0)] True \<and>
   visit_neighbor (pathfinder (SnakeAI_init 30 30)) (Node_init 1 0) [(0, 0), (10, 0), (20, 0)]
     (Node_init 0 0) {(0, 0)} [] (Node_init 1 0) = [] \<and>
   find_path (pathfinder (SnakeAI_init 30 30)) (0, 0) (10, 0) [(0, 0), (10, 0), (20, 0)] = None"
  by code_simp


text \<open>
  C1, amended. A neighbor that lies in the obstacle list is skipped whether or not it is
  the goal; a safe neighbor that is not closed is in the open set afterwards; and when
  the goal cell lies in the obstacle list and is not the start cell, the search returns
  None.
\<close>

theorem C1_no_goal_exemption:
  "(\<not> is_safe_position pf (node_x nb) (node_y nb) body True \<longrightarrow>
      visit_neighbor pf goal_node body cur closed_set open_set nb = open_set) \<and>
   (is_safe_position pf (node_x nb) (node_y nb) body True \<and> node_cell nb \<notin> closed_set \<longrightarrow>
      node_cell nb \<in> node_cell ` set (visit_neighbor pf goal_node body cur closed_set open_set nb)) \<and>
   (\<not> is_safe_position pf (fst (pixel_to_grid pf (fst goal_pos) (snd goal_pos)))
              (snd (pixel_to_grid pf (fst goal_pos) (snd goal_pos))) body True \<and>
    pixel_to_grid pf (fst goal_pos) (snd goal_pos) \<noteq>
      pixel_to_grid pf (fst start_pos) (snd start_pos) \<longrightarrow>
      find_path pf start_pos goal_pos body = None)"
proof (intro conjI impI)
  assume "\<not> is_safe_position pf (node_x nb) (node_y nb) body True"
  then show "visit_neighbor pf goal_node body cur closed_set open_set nb = open_set"
    by (simp add: visit_neighbor_def)
next
  assume a: "is_safe_position pf (node_x nb) (node_y nb) body True \<and> node_cell nb \<notin> closed_set"
  show "node_cell nb \<in> node_cell ` set (visit_neighbor pf goal_node body cur closed_set open_set nb)"
  proof (cases "find (\<lambda>n. node_eq n nb) open_set")
    case None
    with a show ?thesis by (simp add: visit_neighbor_def Let_def node_cell_def)
  next
    case (Some e)
    then have "node_cell nb \<in> node_cell ` set open_set"
      using find_node_eq_None[of nb open_set] by simp
    with a Some show ?thesis by (simp add: visit_neighbor_def Let_def)
  qed
next
  assume "\<not> is_safe_position pf (fst (pixel_to_grid pf (fst goal_pos) (snd goal_pos)))
              (snd (pixel_to_grid pf (fst goal_pos) (snd goal_pos))) body True \<and>
    pixel_to_grid pf (fst goal_pos) (snd goal_pos) \<noteq>
      pixel_to_grid pf (fst start_pos) (snd start_pos)"
  then show "find_path pf start_pos goal_pos body = None"
    using unsafe_goal_no_path by blast
qed

theorem C1_no_goal_exemption_witness:
  "\<not> is_safe_position (pathfinder (SnakeAI_init 30 30)) 1 0 [(0, 0), (10, 0), (20, 0)] True \<and>
   visit_neighbor (pathfinder (SnakeAI_init 30 30)) (Node_init 1 0) [(0, 0), (10, 0), (20, 0)]
     (Node_init 0 0) {(0, 0)} [] (Node_init 1 0) = [] \<and>
   is_safe_position (pathfinder (SnakeAI_init 30 30)) 0 1 [(0, 0), (10, 0), (20, 0)] True \<and>
   node_cell (Node_init 0 1) \<notin> {(0, 0)} \<and>
   node_cell (Node_init 0 1) \<in> node_cell ` set
     (visit_neighbor (pathfinder (SnakeAI_init 30 30)) (Node_init 1 0) [(0, 0), (10, 0), (20, 0)]
        (Node_init 0 0) {(0, 0)} [] (Node_init 0 1)) \<and>
   pixel_to_grid (pathfinder (SnakeAI_init 30 30)) 10 0 = (1, 0) \<and>
   pixel_to_grid (pathfinder (SnakeAI_init 30 30)) 0 0 = (0, 0) \<and>
   find_path (pathfinder (SnakeAI_init 30 30)) (0, 0) (10, 0) [(0, 0), (10, 0), (20, 0)] = None"
proof -
  let ?pf = "pathfinder (SnakeAI_init 30 30)"
  have a: "\<not> is_safe_position ?pf 1 0 [(0, 0), (10, 0), (20, 0)] True"
    by code_simp
  have b: "is_safe_position ?pf 0 1 [(0, 0), (10, 0), (20, 0)] True"
    "node_cell (Node_init 0 1) \<notin> {(0, 0)}"
    by code_simp+
  have g: "pixel_to_grid ?pf 10 0 = (1, 0)" "pixel_to_grid ?pf 0 0 = (0, 0)"
    by code_simp+
  have n: "node_x (Node_init 1 0) = 1" "node_y (Node_init 1 0) = 0"
    "node_x (Node_init 0 1) = 0" "node_y (Node_init 0 1) = 1"
    by (simp_all add: Node_init_def)
  note t1 = C1_no_goal_exemption[of ?pf "Node_init 1 0"
      "[(0, 0), (10, 0), (20, 0)]" "Node_init 1 0" "Node_init 0 0" "{(0, 0)}" "[]"
      "(10, 0)" "(0, 0)", unfolded fst_conv snd_conv n g]
  note t2 = C1_no_goal_exemption[of ?pf "Node_init 0 1"
      "[(0, 0), (10, 0), (20, 0)]" "Node_init 1 0" "Node_init 0 0" "{(0, 0)}" "[]"
      "(10, 0)" "(0, 0)", unfolded fst_conv snd_conv n g]
  have ne: "(1, 0) \<noteq> (0 :: int, 0 :: int)" by simp
  note v1 = t1[THEN conjunct1, THEN mp, OF a]
  note v2 = t2[THEN conjunct2, THEN conjunct1, THEN mp, OF conjI[OF b]]
  note v3 = t1[THEN conjunct2, THEN conjunct2, THEN mp, OF conjI[OF a ne]]
  show ?thesis
    by (intro conjI) (rule a v1 b v2 g v3)+
qed

text \<open>
  C4, as stated, fails: in the initial position with the fruit at (150, 50) the returned
  path starts at the head's cell (10, 5), which is not the goal and lies in the
  obstacle list.
\<close>

theorem C4_counterexample:
  "find_path (pathfinder (SnakeAI_init 720 480)) (100, 50) (150, 50) initial_snake_body
     = Some [(100, 50), (110, 50), (120, 50), (130, 50), (140, 50), (150, 50)] \<and>
   pixel_to_grid (pathfinder (SnakeAI_init 720 480)) 100 50 = (10, 5) \<and>
   pixel_to_grid (pathfinder (SnakeAI_init 720 480)) 150 50 = (15, 5) \<and>
   \<not> is_safe_position (pathfinder (SnakeAI_init 720 480)) 10 5 initial_snake_body True"
  by code_simp

text \<open>
  C4, amended. A returned path is not empty, starts at the start cell, and none of its
  cells after the first lies in the obstacle list of the search (the goal cell
  included).
\<close>

theorem C4_path_avoids_obstacles:
  "AStarPathfinder_init w h cs = Some pf \<Longrightarrow>
   find_path pf start_pos goal_pos body = Some path \<Longrightarrow>
   path \<noteq> [] \<and>
   pixel_to_grid pf (fst (hd path)) (snd (hd path)) =
     pixel_to_grid pf (fst start_pos) (snd start_pos) \<and>
   (\<forall>p \<in> set (tl path).
      is_safe_position pf (fst (pixel_to_grid pf (fst p) (snd p)))
        (snd (pixel_to_grid pf (fst p) (snd p))) body True)"
proof -
  assume i: "AStarPathfinder_init w h cs = Some pf"
    and f: "find_path pf start_pos goal_pos body = Some path"
  note cs = init_cell_size[OF i]
  from find_path_Some[OF f] obtain n where
    ok: "node_ok pf body
               (Node_init (fst (pixel_to_grid pf (fst start_pos) (snd start_pos)))
                          (snd (pixel_to_grid pf (fst start_pos) (snd start_pos)))) n"
    and p: "path = reconstruct_path pf n" by blast
  note r = reconstruct_path_props[OF ok p]
  have "pixel_to_grid pf (fst (hd path)) (snd (hd path)) =
     pixel_to_grid pf (fst start_pos) (snd start_pos)"
    unfolding r(2) by (simp add: pixel_to_grid_to_pixel[OF cs] Node_init_def)
  moreover have "\<forall>p \<in> set (tl path).
      is_safe_position pf (fst (pixel_to_grid pf (fst p) (snd p)))
        (snd (pixel_to_grid pf (fst p) (snd p))) body True"
    using r(4) by (auto simp: pixel_to_grid_to_pixel[OF cs])
  ultimately show ?thesis using r(1) by blast
qed

theorem C4_path_avoids_obstacles_witness:
  "AStarPathfinder_init 720 480 10 = Some \<lparr>cell_size = 10, grid_cols = 72, grid_rows = 48\<rparr> \<and>
   find_path \<lparr>cell_size = 10, grid_cols = 72, grid_rows = 48\<rparr> (100, 50) (150, 50)
     initial_snake_body
     = Some [(100, 50), (110, 50), (120, 50), (130, 50), (140, 50), (150, 50)] \<and>
   (150, 50) \<in> set (tl ([(100, 50), (110, 50), (120, 50), (130, 50), (140, 50), (150, 50)]
                            :: pixel list)) \<and>
   is_safe_position \<lparr>cell_size = 10, grid_cols = 72, grid_rows = 48\<rparr>
     (fst (pixel_to_grid \<lparr>cell_size = 10, grid_cols = 72, grid_rows = 48\<rparr> 150 50))
     (snd (pixel_to_grid \<lparr>cell_size = 10, grid_cols = 72, grid_rows = 48\<rparr> 150 50))
     initial_snake_body True"
proof -
  have i: "AStarPathfinder_init 720 480 10 = Some \<lparr>cell_size = 10, grid_cols = 72, grid_rows = 48\<rparr>"
    by (simp add: AStarPathfinder_init_def)
  have f: "find_path \<lparr>cell_size = 10, grid_cols = 72, grid_rows = 48\<rparr> (100, 50) (150, 50)
     initial_snake_body
     = Some [(100, 50), (110, 50), (120, 50), (130, 50), (140, 50), (150, 50)]"
    by code_simp
  have m: "(150, 50) \<in> set (tl ([(100, 50), (110, 50), (120, 50), (130, 50), (140, 50), (150, 50)]
                            :: pixel list))"
    by simp
  from C4_path_avoids_obstacles[OF i f, THEN conjunct2, THEN conjunct2, THEN bspec, OF m] i f
  show ?thesis by simp
qed

text \<open>
  C10. In a returned path two consecutive positions differ by the cell size in exactly
  one coordinate and agree in the other, and every position after the first is a cell
  of the grid.
\<close>

theorem C10_path_is_grid_walk:
  "AStarPathfinder_init w h cs = Some pf \<Longrightarrow>
   find_path pf start_pos goal_pos body = Some path \<Longrightarrow>
   (\<forall>i. Suc i < length path \<longrightarrow>
      (\<bar>fst (path ! i) - fst (path ! Suc i)\<bar> = \<bar>cs\<bar> \<and> snd (path ! i) = snd (path ! Suc i)) \<or>
      (fst (path ! i) = fst (path ! Suc i) \<and> \<bar>snd (path ! i) - snd (path ! Suc i)\<bar> = \<bar>cs\<bar>)) \<and>
   (\<forall>p \<in> set (tl path). in_grid pf (pixel_to_grid pf (fst p) (snd p)))"
proof -
  assume i: "AStarPathfinder_init w h cs = Some pf"
    and f: "find_path pf start_pos goal_pos body = Some path"
  note cs = init_cell_size[OF i]
  from i have c: "cell_size pf = cs" by (auto simp: AStarPathfinder_init_def split: if_splits)
  from find_path_Some[OF f] obtain n where
    ok: "node_ok pf body
               (Node_init (fst (pixel_to_grid pf (fst start_pos) (snd start_pos)))
                          (snd (pixel_to_grid pf (fst start_pos) (snd start_pos)))) n"
    and p: "path = reconstruct_path pf n" by blast
  note r = reconstruct_path_props[OF ok p]
  have step: "(\<bar>fst (path ! i) - fst (path ! Suc i)\<bar> = \<bar>cs\<bar> \<and> snd (path ! i) = snd (path ! Suc i)) \<or>
      (fst (path ! i) = fst (path ! Suc i) \<and> \<bar>snd (path ! i) - snd (path ! Suc i)\<bar> = \<bar>cs\<bar>)"
    if "Suc i < length path" for i
  proof -
    from successively_nth[OF r(5) that] obtain a b where
      a: "path ! i = grid_to_pixel pf (node_x a) (node_y a)"
      and b: "path ! Suc i = grid_to_pixel pf (node_x b) (node_y b)"
      and ab: "\<bar>node_x a - node_x b\<bar> + \<bar>node_y a - node_y b\<bar> = 1" by blast
    from ab consider "\<bar>node_x a - node_x b\<bar> = 1" "node_y a = node_y b"
      | "node_x a = node_x b" "\<bar>node_y a - node_y b\<bar> = 1" by linarith
    then show ?thesis
    proof cases
      case 1
      have "\<bar>node_x a * cs - node_x b * cs\<bar> = \<bar>node_x a - node_x b\<bar> * \<bar>cs\<bar>"
        by (simp add: abs_mult[symmetric] left_diff_distrib)
      with 1 show ?thesis by (simp add: a b grid_to_pixel_def c)
    next
      case 2
      have "\<bar>node_y a * cs - node_y b * cs\<bar> = \<bar>node_y a - node_y b\<bar> * \<bar>cs\<bar>"
        by (simp add: abs_mult[symmetric] left_diff_distrib)
      with 2 show ?thesis by (simp add: a b grid_to_pixel_def c)
    qed
  qed
  have "\<forall>p \<in> set (tl path). in_grid pf (pixel_to_grid pf (fst p) (snd p))"
    using r(4) by (auto simp: pixel_to_grid_to_pixel[OF cs] node_cell_def)
  with step show ?thesis by blast
qed

theorem C10_path_is_grid_walk_witness:
  "AStarPathfinder_init 720 480 10 = Some \<lparr>cell_size = 10, grid_cols = 72, grid_rows = 48\<rparr> \<and>
   find_path \<lparr>cell_size = 10, grid_cols = 72, grid_rows = 48\<rparr> (100, 50) (130, 70)
     initial_snake_body
     = Some ([(100, 50), (110, 50), (120, 50), (130, 50), (130, 60), (130, 70)] :: pixel list) \<and>
   \<bar>fst (([(100, 50), (110, 50), (120, 50), (130, 50), (130, 60), (130, 70)] :: pixel list) ! 0)
      - fst (([(100, 50), (110, 50), (120, 50), (130, 50), (130, 60), (130, 70)] :: pixel list) ! Suc 0)\<bar> = 10 \<and>
   snd (([(100, 50), (110, 50), (120, 50), (130, 50), (130, 60), (130, 70)] :: pixel list) ! 0)
      = snd (([(100, 50), (110, 50), (120, 50), (130, 50), (130, 60), (130, 70)] :: pixel list) ! Suc 0) \<and>
   fst (([(100, 50), (110, 50), (120, 50), (130, 50), (130, 60), (130, 70)] :: pixel list) ! 3)
      = fst (([(100, 50), (110, 50), (120, 50), (130, 50), (130, 60), (130, 70)] :: pixel list) ! Suc 3) \<and>
   \<bar>snd (([(100, 50), (110, 50), (120, 50), (130, 50), (130, 60), (130, 70)] :: pixel list) ! 3)
      - snd (([(100, 50), (110, 50), (120, 50), (130, 50), (130, 60), (130, 70)] :: pixel list) ! Suc 3)\<bar> = 10 \<and>
   in_grid \<lparr>cell_size = 10, grid_cols = 72, grid_rows = 48\<rparr>
     (pixel_to_grid \<lparr>cell_size = 10, grid_cols = 72, grid_rows = 48\<rparr> 130 70)"
proof -
  have i: "AStarPathfinder_init 720 480 10 = Some \<lparr>cell_size = 10, grid_cols = 72, grid_rows = 48\<rparr>"
    by (simp add: AStarPathfinder_init_def)
  have f: "find_path \<lparr>cell_size = 10, grid_cols = 72, grid_rows = 48\<rparr> (100, 50) (130, 70)
     initial_snake_body
     = Some ([(100, 50), (110, 50), (120, 50), (130, 50), (130, 60), (130, 70)] :: pixel list)"
    by code_simp
  have m: "(130, 70) \<in> set (tl ([(100, 50), (110, 50), (120, 50), (130, 50), (130, 60), (130, 70)] :: pixel list))"
    by simp
  note t = C10_path_is_grid_walk[OF i f]
  from t[THEN conjunct1, THEN spec, of 0] t[THEN conjunct1, THEN spec, of 3]
    t[THEN conjunct2, THEN bspec, OF m] i f
  show ?thesis by simp
qed

text \<open>
  C7. find_path is a total function: its loop is defined by well-founded recursion. The
  cells it pops are pairwise distinct, so every cell is popped and expanded at most
  once and the loop makes at most one iteration per grid cell and one for the start;
  the result is None exactly when the goal cell is never popped, that is when the open
  set runs empty.
\<close>

theorem C7_search_terminates:
  "distinct (expansion_order pf start_pos goal_pos body) \<and>
   length (expansion_order pf start_pos goal_pos body)
     \<le> nat (grid_cols pf) * nat (grid_rows pf) + 1 \<and>
   (find_path pf start_pos goal_pos body = None \<longleftrightarrow>
      pixel_to_grid pf (fst goal_pos) (snd goal_pos)
        \<notin> set (expansion_order pf start_pos goal_pos body))"
proof -
  let ?sc = "pixel_to_grid pf (fst start_pos) (snd start_pos)"
  let ?s = "Node_init (fst ?sc) (snd ?sc)"
  let ?g = "Node_init (fst (pixel_to_grid pf (fst goal_pos) (snd goal_pos)))
                          (snd (pixel_to_grid pf (fst goal_pos) (snd goal_pos)))"
  let ?tr = "popped_cells pf ?g body [?s] {}"
  have e: "expansion_order pf start_pos goal_pos body = ?tr"
    by (simp add: expansion_order_def Let_def)
  have "frontier_ok pf ?sc [?s] {}"
    by (simp add: frontier_ok_def node_cell_def Node_init_def)
  from popped_cells_props[OF this, of ?g body]
  have d: "distinct ?tr" and sub: "set ?tr \<subseteq> insert ?sc {c. in_grid pf c}" by auto
  have "length ?tr = card (set ?tr)" using d by (simp add: distinct_card)
  also have "\<dots> \<le> card (insert ?sc {c. in_grid pf c})"
    using sub by (intro card_mono) (simp_all add: finite_in_grid)
  also have "\<dots> \<le> card {c. in_grid pf c} + 1"
    by (simp add: card_insert_if finite_in_grid)
  finally have l: "length ?tr \<le> nat (grid_cols pf) * nat (grid_rows pf) + 1"
    by (simp add: card_in_grid)
  have "find_path pf start_pos goal_pos body = None \<longleftrightarrow>
      pixel_to_grid pf (fst goal_pos) (snd goal_pos) \<notin> set ?tr"
    using find_loop_popped_cells[of pf ?g body "[?s]" "{}"]
    by (simp add: find_path_def Let_def node_cell_def Node_init_def)
  with d l show ?thesis unfolding e by blast
qed

theorem C7_search_terminates_witness:
  "expansion_order (pathfinder (SnakeAI_init 30 30)) (0, 0) (10, 0) [(0, 0), (10, 0), (20, 0)]
     = [(0, 0), (0, 1), (1, 1), (0, 2), (2, 1), (1, 2), (2, 0), (2, 2)] \<and>
   distinct (expansion_order (pathfinder (SnakeAI_init 30 30)) (0, 0) (10, 0)
     [(0, 0), (10, 0), (20, 0)]) \<and>
   length (expansion_order (pathfinder (SnakeAI_init 30 30)) (0, 0) (10, 0)
     [(0, 0), (10, 0), (20, 0)]) \<le> 10 \<and>
   find_path (pathfinder (SnakeAI_init 30 30)) (0, 0) (10, 0) [(0, 0), (10, 0), (20, 0)] = None"
proof -
  have e: "expansion_order (pathfinder (SnakeAI_init 30 30)) (0, 0) (10, 0)
      [(0, 0), (10, 0), (20, 0)]
     = [(0, 0), (0, 1), (1, 1), (0, 2), (2, 1), (1, 2), (2, 0), (2, 2)]"
    by code_simp
  have g: "pixel_to_grid (pathfinder (SnakeAI_init 30 30)) (fst (10, 0)) (snd (10, 0)) = (1, 0)"
    by code_simp
  have b: "nat (grid_cols (pathfinder (SnakeAI_init 30 30))) *
           nat (grid_rows (pathfinder (SnakeAI_init 30 30))) + 1 = 10"
    by (simp add: SnakeAI_init_def)
  from C7_search_terminates[of "pathfinder (SnakeAI_init 30 30)" "(0, 0)" "(10, 0)"
      "[(0, 0), (10, 0), (20, 0)]"]
  show ?thesis unfolding g b unfolding e by simp
qed

text \<open>
  C3. When start and goal are cells of the grid and no cell between them (no cell on a
  shortest grid path from start to goal, the start apart) lies in the obstacle list, the
  search returns a path, and its number of cells is the Manhattan distance of start and
  goal plus 1; with an empty body this holds for every start and goal in the grid. In
  the 72 x 48 grid with the head at cell (10, 5) and the food at cell (15, 5), whenever
  the cells (11, 5) .. (15, 5) are safe, the path has 6 cells and the policy's move is
  RIGHT.
\<close>

theorem C3_shortest_path_when_clear:
  "(clear_between pf body (pixel_to_grid pf (fst start_pos) (snd start_pos))
        (pixel_to_grid pf (fst goal_pos) (snd goal_pos)) \<longrightarrow>
      (\<exists>path. find_path pf start_pos goal_pos body = Some path \<and>
         int (length path) =
           cell_distance (pixel_to_grid pf (fst start_pos) (snd start_pos))
             (pixel_to_grid pf (fst goal_pos) (snd goal_pos)) + 1)) \<and>
   (in_grid pf (pixel_to_grid pf (fst start_pos) (snd start_pos)) \<and>
    in_grid pf (pixel_to_grid pf (fst goal_pos) (snd goal_pos)) \<longrightarrow>
      (\<exists>path. find_path pf start_pos goal_pos [] = Some path \<and>
         int (length path) =
           cell_distance (pixel_to_grid pf (fst start_pos) (snd start_pos))
             (pixel_to_grid pf (fst goal_pos) (snd goal_pos)) + 1)) \<and>
   ((\<forall>x \<in> {11..15}. is_safe_position (pathfinder (SnakeAI_init 720 480)) x 5 body' True) \<longrightarrow>
      (\<exists>path. find_path (pathfinder (SnakeAI_init 720 480)) (100, 50) (150, 50) body' = Some path \<and>
         length path = 6) \<and>
      get_next_move (SnakeAI_init 720 480) (100, 50) (150, 50) body' = RIGHT)"
  using find_path_optimal[of pf body start_pos goal_pos]
    find_path_optimal[of pf "[]" start_pos goal_pos]
    clear_between_empty[of pf "pixel_to_grid pf (fst start_pos) (snd start_pos)"
      "pixel_to_grid pf (fst goal_pos) (snd goal_pos)"]
    scenario_first_move[of body']
  by blast

theorem C3_shortest_path_when_clear_witness:
  "clear_between (pathfinder (SnakeAI_init 720 480)) initial_snake_body
     (pixel_to_grid (pathfinder (SnakeAI_init 720 480)) 100 50)
     (pixel_to_grid (pathfinder (SnakeAI_init 720 480)) 130 70) \<and>
   find_path (pathfinder (SnakeAI_init 720 480)) (100, 50) (130, 70) initial_snake_body
     = Some [(100, 50), (110, 50), (120, 50), (130, 50), (130, 60), (130, 70)] \<and>
   cell_distance (pixel_to_grid (pathfinder (SnakeAI_init 720 480)) 100 50)
       (pixel_to_grid (pathfinder (SnakeAI_init 720 480)) 130 70) + 1 = 6 \<and>
   in_grid (pathfinder (SnakeAI_init 720 480))
     (pixel_to_grid (pathfinder (SnakeAI_init 720 480)) 100 50) \<and>
   in_grid (pathfinder (SnakeAI_init 720 480))
     (pixel_to_grid (pathfinder (SnakeAI_init 720 480)) 130 70) \<and>
   find_path (pathfinder (SnakeAI_init 720 480)) (100, 50) (130, 70) []
     = Some [(100, 50), (110, 50), (110, 60), (120, 60), (120, 70), (130, 70)] \<and>
   is_safe_position (pathfinder (SnakeAI_init 720 480)) 11 5 initial_snake_body True \<and>
   is_safe_position (pathfinder (SnakeAI_init 720 480)) 12 5 initial_snake_body True \<and>
   is_safe_position (pathfinder (SnakeAI_init 720 480)) 13 5 initial_snake_body True \<and>
   is_safe_position (pathfinder (SnakeAI_init 720 480)) 14 5 initial_snake_body True \<and>
   is_safe_position (pathfinder (SnakeAI_init 720 480)) 15 5 initial_snake_body True \<and>
   find_path (pathfinder (SnakeAI_init 720 480)) (100, 50) (150, 50) initial_snake_body
     = Some [(100, 50), (110, 50), (120, 50), (130, 50), (140, 50), (150, 50)] \<and>
   get_next_move (SnakeAI_init 720 480) (100, 50) (150, 50) initial_snake_body = RIGHT"
proof -
  let ?pf = "pathfinder (SnakeAI_init 720 480)"
  let ?S = "pixel_to_grid ?pf 100 50"
  let ?G = "pixel_to_grid ?pf 130 70"
  have S: "?S = (10, 5)" and G: "?G = (13, 7)"
    by (simp_all add: pixel_to_grid_def SnakeAI_init_def)
  have ig: "in_grid ?pf ?S" "in_grid ?pf ?G"
    unfolding S G by (simp_all add: in_grid_def SnakeAI_init_def)
  have pos: "snake_grid_positions ?pf initial_snake_body True = [(10, 5), (9, 5), (8, 5)]"
    by code_simp
  have cb: "clear_between ?pf initial_snake_body ?S ?G"
    unfolding clear_between_def
  proof (intro conjI allI impI)
    fix c :: cell
    assume "cell_distance ?S c + cell_distance c ?G = cell_distance ?S ?G \<and> c \<noteq> ?S"
    then have "10 \<le> fst c"
      unfolding S G cell_distance_def by (simp only: fst_conv snd_conv) linarith
    then have "(fst c, snd c) \<notin> set [(10, 5), (9, 5), (8, 5)]"
      using \<open>cell_distance ?S c + cell_distance c ?G = cell_distance ?S ?G \<and> c \<noteq> ?S\<close>
      unfolding S by (auto simp: prod_eq_iff)
    then show "is_safe_position ?pf (fst c) (snd c) initial_snake_body True"
      unfolding is_safe_position_def pos .
  qed (rule ig)+
  have safe: "\<forall>x \<in> {11..15}. is_safe_position ?pf x 5 initial_snake_body True"
    unfolding is_safe_position_def pos by auto
  have s1: "is_safe_position ?pf 11 5 initial_snake_body True"
    "is_safe_position ?pf 12 5 initial_snake_body True"
    "is_safe_position ?pf 13 5 initial_snake_body True"
    "is_safe_position ?pf 14 5 initial_snake_body True"
    "is_safe_position ?pf 15 5 initial_snake_body True"
    using safe by simp_all
  have f1: "find_path ?pf (100, 50) (130, 70) initial_snake_body
     = Some [(100, 50), (110, 50), (120, 50), (130, 50), (130, 60), (130, 70)]"
    by code_simp
  have f2: "find_path ?pf (100, 50) (130, 70) []
     = Some [(100, 50), (110, 50), (110, 60), (120, 60), (120, 70), (130, 70)]"
    by code_simp
  have f3: "find_path ?pf (100, 50) (150, 50) initial_snake_body
     = Some [(100, 50), (110, 50), (120, 50), (130, 50), (140, 50), (150, 50)]"
    by code_simp
  note t = C3_shortest_path_when_clear[of ?pf initial_snake_body "(100, 50)" "(130, 70)"
      initial_snake_body, unfolded fst_conv snd_conv]
  from t[THEN conjunct1, THEN mp, OF cb]
  have l: "cell_distance ?S ?G + 1 = 6"
    unfolding f1 by simp
  from t[THEN conjunct2, THEN conjunct2, THEN mp, OF safe]
  have m: "get_next_move (SnakeAI_init 720 480) (100, 50) (150, 50) initial_snake_body = RIGHT"
    by blast
  show ?thesis
    by (intro conjI) (rule cb f1 l ig f2 s1 f3 m)+
qed

end
